theory Spec2Isabelle
  imports Main
begin

section \<open>Python exceptions\<close>

text \<open>
  The exception classes that the modelled functions raise themselves
  (\<open>RuntimeError\<close>, \<open>ValueError\<close>, \<open>AttributeError\<close>, \<open>TypeError\<close>), the error of
  a TensorFlow operation that rejects its arguments, and \<open>ExternalError\<close> for any
  exception raised by a collaborator (a hook callback, an iterator, the step runner,
  the session lookup), tagged so that different failures can be told apart.
\<close>

datatype error =
    RuntimeError
  | ValueError
  | AttributeError
  | TypeError
  | InvalidArgumentError
  | ExternalError nat

section \<open>Shape utilities (tfsnippet/utils/shape\_utils.py)\<close>

subsection \<open>resolve\_negative\_axis\<close>

text \<open>
  The loop of \<open>resolve_negative_axis\<close>: \<open>ret\<close> is the list built so far; an index
  that is still out of range after the shift raises \<open>ValueError\<close> at once.
\<close>

fun resolve_loop :: "int \<Rightarrow> int list \<Rightarrow> int list \<Rightarrow> error + int list" where
  "resolve_loop ndims [] ret = Inr ret"
| "resolve_loop ndims (a # axis) ret =
     (let a' = (if a < 0 then a + ndims else a)
      in if a' < 0 \<or> a' \<ge> ndims then Inl ValueError
         else resolve_loop ndims axis (ret @ [a']))"

definition resolve_negative_axis :: "int \<Rightarrow> int list \<Rightarrow> error + int list" where
  "resolve_negative_axis ndims axis = resolve_loop ndims axis []"

subsection \<open>Shapes: tuples of integers and shape tensors\<close>

text \<open>
  A shape argument is either a plain tuple of integers or a one-dimensional
  \<open>int32\<close> tensor; \<open>is_tensor_object\<close> tells them apart. TensorFlow is not part of
  the repository. A shape tensor is modelled by what is known of its value when the
  graph is built (\<open>None\<close> for an element that is not known then) and by the integers
  it evaluates to when the graph is run.
\<close>

datatype shape = StaticShape "int list" | ShapeTensor "int option list" "int list"

fun is_tensor_object :: "shape \<Rightarrow> bool" where
  "is_tensor_object (StaticShape t) = False"
| "is_tensor_object (ShapeTensor k v) = True"

fun shape_values :: "shape \<Rightarrow> int list" where
  "shape_values (StaticShape t) = t"
| "shape_values (ShapeTensor k v) = v"

fun shape_known :: "shape \<Rightarrow> int option list" where
  "shape_known (StaticShape t) = map Some t"
| "shape_known (ShapeTensor k v) = k"

text \<open>
  \<open>tf.constant(s, dtype=tf.int32)\<close>, also done implicitly where a Python list stands
  among tensors: an integer outside the range of \<open>int32\<close> wraps around.
\<close>

definition int32 :: "int \<Rightarrow> int" where
  "int32 v = (v + 2147483648) mod 4294967296 - 2147483648"

definition tf_constant :: "int list \<Rightarrow> shape" where
  "tf_constant t = ShapeTensor (map (\<lambda>v. Some (int32 v)) t) (map int32 t)"

definition convert_to_tensor :: "shape \<Rightarrow> shape" where
  "convert_to_tensor s = (if is_tensor_object s then s else tf_constant (shape_values s))"

text \<open>
  \<open>tf.concat(shapes, axis=0)\<close> on one-dimensional integers, at least one of them
  an \<open>int32\<close> tensor: the others are converted to its element type.
\<close>

definition tf_concat :: "shape list \<Rightarrow> shape" where
  "tf_concat ts =
     ShapeTensor (concat (map (\<lambda>s. shape_known (convert_to_tensor s)) ts))
                 (concat (map (\<lambda>s. shape_values (convert_to_tensor s)) ts))"

text \<open>
  \<open>sum((tuple(s) for s in shapes), ())\<close>: Python's \<open>sum\<close> adds the items from the
  left, starting from the empty tuple.
\<close>

definition py_sum_tuples :: "int list list \<Rightarrow> int list" where
  "py_sum_tuples ts = foldl (@) [] ts"

definition concat_shapes :: "shape list \<Rightarrow> shape" where
  "concat_shapes shapes =
     (if list_ex is_tensor_object shapes
      then tf_concat (map (\<lambda>s. if is_tensor_object s then s
                                 else tf_constant (shape_values s)) shapes)
      else StaticShape (py_sum_tuples (map shape_values shapes)))"

subsection \<open>Tensors and the TensorFlow operations used\<close>

text \<open>
  A tensor is modelled by what \<open>flatten\<close> and \<open>unflatten\<close> can observe of it: the
  static shape that \<open>get_shape()\<close> reports when the graph is built (\<open>None\<close> when the
  number of dimensions is unknown, a dimension \<open>None\<close> when its size is unknown), and
  the shape and the elements, in row-major order, that it has when the graph is run.
\<close>

record 'a tensor =
  static_shape :: "int option list option"
  dynamic_shape :: "int list"
  elements :: "'a list"




text \<open>
  When the graph is built, the shape function of the reshape operation works out
  the static shape of the result from the static shape of the argument and from what
  is known of the requested sizes then, a \<open>-1\<close> or an unknown size being an
  unknown dimension. If at most one dimension of the argument and at most one of the
  result are unknown, it compares the numbers of elements: two fully known shapes
  must have the same number; a fully known argument gives the one unknown dimension
  of the result, if the product of the other dimensions is positive and divides the
  number of elements evenly; a fully known result must hold a multiple of the known
  dimensions of the argument, if their product is not zero. A request that fails
  there is a \<open>ValueError\<close>, and so is a known size below \<open>-1\<close>.
\<close>

definition unknown_dims :: "int option list \<Rightarrow> nat" where
  "unknown_dims st = length (filter (\<lambda>d. d = None) st)"






text \<open>
  The slices \<open>xs[:-m]\<close> and \<open>xs[-m:]\<close> for \<open>m > 0\<close> and \<open>xs[1:]\<close>, of a tuple
  and of a shape tensor: a start or stop before the beginning is the beginning.
\<close>

definition slice_to_last :: "nat \<Rightarrow> 'b list \<Rightarrow> 'b list" where
  "slice_to_last m xs = take (length xs - m) xs"

definition slice_from_last :: "nat \<Rightarrow> 'b list \<Rightarrow> 'b list" where
  "slice_from_last m xs = drop (length xs - m) xs"




subsection \<open>int\_shape, flatten and unflatten\<close>





section \<open>Hook lists (tfsnippet/trainer/hooks.py)\<close>

subsection \<open>Callables\<close>

text \<open>
  A hook callback is an arbitrary Python object. What the trainer can observe of
  such an object is whether it is callable, what a call of it does, and its
  \<open>run\<close> and \<open>anneal\<close> attributes. A call either returns (leaving a mark in the
  record of fired callbacks), raises an exception of its own, calls \<open>run()\<close> of the
  trainer it is registered with and lets whatever that raises pass through, or
  calls \<open>run()\<close> inside \<open>try\<close>/\<open>except\<close> and notes what happened.
\<close>

datatype behaviour = Returns | Raises nat | CallsRun | TriesRun

datatype pyobj =
  PyObj (ident: nat) (call_impl: "behaviour option")
        (attr_run: "pyobj option") (attr_anneal: "pyobj option")

definition callable :: "pyobj \<Rightarrow> bool" where
  "callable obj = (call_impl obj \<noteq> None)"

subsection \<open>HookList\<close>

text \<open>
  Modelled from the spec: the module \<open>hooks.py\<close> (\<open>HookList\<close> and
  \<open>HookPriority\<close>) is not among the sources. Section 3 and 4.1 of the specification
  give a hook as a callback with a frequency and a priority, and a hook list as the
  ordered hooks with one trigger counter; \<open>add_hook\<close> keeps the hooks in ascending
  priority, registration order among equal priorities; \<open>reset\<close> zeroes the
  counter; \<open>call_hooks\<close> increments the counter and calls, in order, every hook
  whose frequency divides it, stopping at the first callback that raises. The
  priority constants are only known to be ordered values, so they are parameters.
\<close>

record hook =
  callback :: pyobj
  freq :: int
  priority :: int

record hook_list =
  hooks :: "hook list"
  counter :: int

record hook_priority =
  EVALUATION :: int
  ANNEALING :: int
  LOGGING :: int

definition HookList :: hook_list where
  "HookList = \<lparr>hooks = [], counter = 0\<rparr>"

fun insert_hook :: "hook \<Rightarrow> hook list \<Rightarrow> hook list" where
  "insert_hook h [] = [h]"
| "insert_hook h (g # gs) =
     (if priority g \<le> priority h then g # insert_hook h gs else h # g # gs)"

definition add_hook :: "pyobj \<Rightarrow> int \<Rightarrow> int \<Rightarrow> hook_list \<Rightarrow> hook_list" where
  "add_hook cb f p hl =
     hl\<lparr>hooks := insert_hook \<lparr>callback = cb, freq = f, priority = p\<rparr> (hooks hl)\<rparr>"

definition reset :: "hook_list \<Rightarrow> hook_list" where
  "reset hl = hl\<lparr>counter := 0\<rparr>"

section \<open>The trainer (tfsnippet/trainer/base\_trainer.py)\<close>

subsection \<open>State, collaborators and outcomes\<close>

type_synonym session = nat
type_synonym epoch = nat
type_synonym payload = nat

text \<open>
  A Python generator that ends: it yields finitely many items and then either is
  exhausted or raises an exception of its own. The code of a generator (that of
  \<open>_iter_steps\<close> is a method of the trainer) may call \<open>run()\<close> before it yields the
  next item; \<open>Reenter\<close> is such a call, whose error passes through the generator.
  \<open>completes\<close> holds of a generator that neither raises nor calls \<open>run()\<close>.
\<close>

datatype 'a gen = Exhausted | Throw nat | Yield 'a "'a gen" | Reenter "'a gen"

fun yielded :: "'a gen \<Rightarrow> 'a list" where
  "yielded Exhausted = []"
| "yielded (Throw t) = []"
| "yielded (Yield x g) = x # yielded g"
| "yielded (Reenter g) = yielded g"

fun completes :: "'a gen \<Rightarrow> bool" where
  "completes Exhausted = True"
| "completes (Throw t) = False"
| "completes (Yield x g) = completes g"
| "completes (Reenter g) = False"

text \<open>
  What a call of \<open>_run_step\<close> or of the loop's \<open>print_training_summary\<close> does: it
  returns, raises an exception of its own, or calls \<open>run()\<close> of the trainer and lets
  the error pass. A call of \<open>run()\<close> whose error is caught is not modelled apart:
  \<open>run()\<close> refuses it at the guard and changes nothing.
\<close>

datatype action = Succeeds | Fails nat | Reenters

datatype which = BeforeEpochs | BeforeSteps | AfterSteps | AfterEpochs

text \<open>
  The calls that \<open>run()\<close> makes on its collaborators, the marks that callbacks
  leave, and the number of calls of \<open>run()\<close> that collaborators have made on the
  trainer. They are kept in the state as histories, so that the order of the calls
  can be stated; the code itself has no such fields.
\<close>

datatype call =
    PrintTrainingSummary
  | ResetHooks which
  | CallHooks which
  | RunStep session payload

datatype mark = Ran nat | RunReturned nat | RunRaised nat error

record state =
  before_epochs :: hook_list
  after_epochs :: hook_list
  before_steps :: hook_list
  after_steps :: hook_list
  is_fitting :: bool
  calls :: "call list"
  fired :: "mark list"
  reentries :: nat

text \<open>
  The collaborators, fixed for the lifetime of a trainer: the loop object given to
  \<open>__init__\<close>, the priority constants, the two global functions that \<open>run()\<close> calls
  first, and the two methods that a subclass supplies. A collaborator that fails
  raises \<open>ExternalError\<close> with the given tag. \<open>iter_steps env epoch\<close> is what the
  call of \<open>_iter_steps()\<close> made during that epoch yields.
\<close>

record train_loop =
  print_logs :: pyobj
  print_training_summary :: action
  iter_epochs :: "epoch gen"

record env =
  loop :: train_loop
  HookPriority :: hook_priority
  get_default_session_or_error :: "nat + session"
  ensure_variables_initialized :: "nat option"
  iter_steps :: "epoch \<Rightarrow> payload gen"
  run_step :: "session \<Rightarrow> payload \<Rightarrow> action"

datatype outcome = Normal | Raise error

text \<open>
  A computation that may call \<open>run()\<close> again has a result only if the nesting of
  \<open>run()\<close> calls stays within the fuel; \<open>None\<close> means the fuel ran out.
\<close>

type_synonym result = "(outcome \<times> state) option"

definition and_then :: "result \<Rightarrow> (state \<Rightarrow> result) \<Rightarrow> result" where
  "and_then r f =
     (case r of None \<Rightarrow> None
      | Some (Raise e, s) \<Rightarrow> Some (Raise e, s)
      | Some (Normal, s) \<Rightarrow> f s)"

definition external :: "nat option \<Rightarrow> state \<Rightarrow> result" where
  "external failure s =
     (case failure of None \<Rightarrow> Some (Normal, s)
      | Some t \<Rightarrow> Some (Raise (ExternalError t), s))"

text \<open>
  A call of \<open>run()\<close> made by a collaborator; \<open>rerun\<close> is what \<open>run()\<close> does at
  that point.
\<close>

definition reenter :: "(state \<Rightarrow> result) \<Rightarrow> state \<Rightarrow> result" where
  "reenter rerun s = rerun (s\<lparr>reentries := Suc (reentries s)\<rparr>)"

definition perform :: "(state \<Rightarrow> result) \<Rightarrow> action \<Rightarrow> state \<Rightarrow> result" where
  "perform rerun a s =
     (case a of Succeeds \<Rightarrow> Some (Normal, s)
      | Fails t \<Rightarrow> Some (Raise (ExternalError t), s)
      | Reenters \<Rightarrow> reenter rerun s)"

fun get_hooks :: "which \<Rightarrow> state \<Rightarrow> hook_list" where
  "get_hooks BeforeEpochs s = before_epochs s"
| "get_hooks BeforeSteps s = before_steps s"
| "get_hooks AfterSteps s = after_steps s"
| "get_hooks AfterEpochs s = after_epochs s"

fun set_hooks :: "which \<Rightarrow> hook_list \<Rightarrow> state \<Rightarrow> state" where
  "set_hooks BeforeEpochs hl s = s\<lparr>before_epochs := hl\<rparr>"
| "set_hooks BeforeSteps hl s = s\<lparr>before_steps := hl\<rparr>"
| "set_hooks AfterSteps hl s = s\<lparr>after_steps := hl\<rparr>"
| "set_hooks AfterEpochs hl s = s\<lparr>after_epochs := hl\<rparr>"

definition hook_lists :: "which list" where
  "hook_lists = [BeforeEpochs, BeforeSteps, AfterSteps, AfterEpochs]"

subsection \<open>Calling hooks\<close>

text \<open>
  Modelled from the spec: \<open>HookList.call_hooks\<close> and \<open>HookList.reset\<close> of the
  absent \<open>hooks.py\<close>, acting on one of the four lists of the trainer. Section 4.1:
  \<open>call_hooks\<close> increments the trigger counter and then invokes, in the order of the
  list, every hook whose frequency divides the counter; a callback that raises ends
  the call at once. In \<open>invoke\<close>, the call of one callback, \<open>rerun\<close> is what a
  call of \<open>run()\<close> on the trainer does at this point.
\<close>

definition invoke :: "(state \<Rightarrow> result) \<Rightarrow> pyobj \<Rightarrow> state \<Rightarrow> result" where
  "invoke rerun cb s =
     (case call_impl cb of
        None \<Rightarrow> Some (Raise TypeError, s)
      | Some Returns \<Rightarrow> Some (Normal, s\<lparr>fired := fired s @ [Ran (ident cb)]\<rparr>)
      | Some (Raises t) \<Rightarrow> Some (Raise (ExternalError t), s)
      | Some CallsRun \<Rightarrow> reenter rerun s
      | Some TriesRun \<Rightarrow>
          (case reenter rerun s of
             None \<Rightarrow> None
           | Some (Normal, s') \<Rightarrow>
               Some (Normal, s'\<lparr>fired := fired s' @ [RunReturned (ident cb)]\<rparr>)
           | Some (Raise e, s') \<Rightarrow>
               Some (Normal, s'\<lparr>fired := fired s' @ [RunRaised (ident cb) e]\<rparr>)))"

fun call_due :: "(state \<Rightarrow> result) \<Rightarrow> int \<Rightarrow> hook list \<Rightarrow> state \<Rightarrow> result" where
  "call_due rerun c [] s = Some (Normal, s)"
| "call_due rerun c (h # hs) s =
     (if c mod freq h = 0
      then and_then (invoke rerun (callback h) s) (call_due rerun c hs)
      else call_due rerun c hs s)"

definition call_hooks :: "(state \<Rightarrow> result) \<Rightarrow> which \<Rightarrow> state \<Rightarrow> result" where
  "call_hooks rerun w s =
     (let hl = get_hooks w s;
          hl' = hl\<lparr>counter := counter hl + 1\<rparr>;
          s' = (set_hooks w hl' s)\<lparr>calls := calls s @ [CallHooks w]\<rparr>
      in call_due rerun (counter hl') (hooks hl') s')"

definition reset_hooks :: "which \<Rightarrow> state \<Rightarrow> state" where
  "reset_hooks w s =
     (set_hooks w (reset (get_hooks w s)) s)\<lparr>calls := calls s @ [ResetHooks w]\<rparr>"

subsection \<open>run\<close>

definition run_step_call ::
  "(state \<Rightarrow> result) \<Rightarrow> env \<Rightarrow> session \<Rightarrow> payload \<Rightarrow> state \<Rightarrow> result" where
  "run_step_call rerun env sess p s =
     perform rerun (run_step env sess p) (s\<lparr>calls := calls s @ [RunStep sess p]\<rparr>)"

text \<open>The loop over the payloads of one epoch.\<close>

fun step_loop :: "(state \<Rightarrow> result) \<Rightarrow> env \<Rightarrow> session \<Rightarrow> payload gen \<Rightarrow> state \<Rightarrow> result" where
  "step_loop rerun env sess Exhausted s = Some (Normal, s)"
| "step_loop rerun env sess (Throw t) s = Some (Raise (ExternalError t), s)"
| "step_loop rerun env sess (Yield p g) s =
     and_then (call_hooks rerun BeforeSteps s) (\<lambda>s.
     and_then (run_step_call rerun env sess p s) (\<lambda>s.
     and_then (call_hooks rerun AfterSteps s) (\<lambda>s.
     step_loop rerun env sess g s)))"
| "step_loop rerun env sess (Reenter g) s =
     and_then (reenter rerun s) (step_loop rerun env sess g)"

text \<open>The loop over the epochs.\<close>

fun epoch_loop :: "(state \<Rightarrow> result) \<Rightarrow> env \<Rightarrow> session \<Rightarrow> epoch gen \<Rightarrow> state \<Rightarrow> result" where
  "epoch_loop rerun env sess Exhausted s = Some (Normal, s)"
| "epoch_loop rerun env sess (Throw t) s = Some (Raise (ExternalError t), s)"
| "epoch_loop rerun env sess (Yield ep g) s =
     and_then (call_hooks rerun BeforeEpochs s) (\<lambda>s.
     and_then (step_loop rerun env sess (iter_steps env ep) s) (\<lambda>s.
     and_then (call_hooks rerun AfterEpochs s) (\<lambda>s.
     epoch_loop rerun env sess g s)))"
| "epoch_loop rerun env sess (Reenter g) s =
     and_then (reenter rerun s) (epoch_loop rerun env sess g)"

text \<open>The body of the \<open>try\<close> statement of \<open>run()\<close>.\<close>

definition run_body :: "(state \<Rightarrow> result) \<Rightarrow> env \<Rightarrow> state \<Rightarrow> result" where
  "run_body rerun env s =
     (case get_default_session_or_error env of
        Inl t \<Rightarrow> Some (Raise (ExternalError t), s)
      | Inr sess \<Rightarrow>
          and_then (external (ensure_variables_initialized env) s) (\<lambda>s.
          and_then (perform rerun (print_training_summary (loop env))
                      (s\<lparr>calls := calls s @ [PrintTrainingSummary]\<rparr>)) (\<lambda>s.
          epoch_loop rerun env sess (iter_epochs (loop env))
            (foldl (\<lambda>s w. reset_hooks w s) s hook_lists))))"

text \<open>
  \<open>run()\<close>. The first argument bounds the nesting of \<open>run()\<close> calls: a
  collaborator that calls \<open>run()\<close> does so with one unit less. The \<open>finally\<close> clause clears
  \<open>_is_fitting\<close> whatever the outcome of the body is.
\<close>

primrec run :: "nat \<Rightarrow> env \<Rightarrow> state \<Rightarrow> result" where
  "run 0 env s = None"
| "run (Suc n) env s =
     (if is_fitting s then Some (Raise RuntimeError, s)
      else (case run_body (run n env) env (s\<lparr>is_fitting := True\<rparr>) of
              None \<Rightarrow> None
            | Some (r, s') \<Rightarrow> Some (r, s'\<lparr>is_fitting := False\<rparr>)))"

subsection \<open>Registering hooks\<close>

definition check_epochs_and_steps_arg :: "int option \<Rightarrow> int option \<Rightarrow> error option" where
  "check_epochs_and_steps_arg epochs steps =
     (if (epochs \<noteq> None \<and> steps \<noteq> None) \<or> (epochs = None \<and> steps = None)
      then Some ValueError else None)"

definition log_after_steps :: "env \<Rightarrow> int \<Rightarrow> state \<Rightarrow> outcome \<times> state" where
  "log_after_steps env f s =
     (Normal, s\<lparr>after_steps :=
        add_hook (print_logs (loop env)) f (LOGGING (HookPriority env)) (after_steps s)\<rparr>)"

definition log_after_epochs :: "env \<Rightarrow> int \<Rightarrow> state \<Rightarrow> outcome \<times> state" where
  "log_after_epochs env f s =
     (Normal, s\<lparr>after_epochs :=
        add_hook (print_logs (loop env)) f (LOGGING (HookPriority env)) (after_epochs s)\<rparr>)"

text \<open>
  After the check one of the two arguments is an integer; passing \<open>None\<close> on as a
  frequency is not reached.
\<close>

definition log_after :: "env \<Rightarrow> int option \<Rightarrow> int option \<Rightarrow> state \<Rightarrow> outcome \<times> state" where
  "log_after env epochs steps s =
     (case check_epochs_and_steps_arg epochs steps of
        Some e \<Rightarrow> (Raise e, s)
      | None \<Rightarrow>
          (case epochs of
             Some f \<Rightarrow> log_after_epochs env f s
           | None \<Rightarrow> (case steps of
                         Some f \<Rightarrow> log_after_steps env f s
                       | None \<Rightarrow> (Raise TypeError, s))))"

text \<open>
  \<open>callback = evaluator if callable(evaluator) else evaluator.run\<close>; reading a
  missing attribute raises \<open>AttributeError\<close>.
\<close>

definition evaluate_after_steps :: "env \<Rightarrow> pyobj \<Rightarrow> int \<Rightarrow> state \<Rightarrow> outcome \<times> state" where
  "evaluate_after_steps env evaluator f s =
     (case (if callable evaluator then Some evaluator else attr_run evaluator) of
        None \<Rightarrow> (Raise AttributeError, s)
      | Some cb \<Rightarrow>
          (Normal, s\<lparr>after_steps :=
             add_hook cb f (EVALUATION (HookPriority env)) (after_steps s)\<rparr>))"

definition evaluate_after_epochs :: "env \<Rightarrow> pyobj \<Rightarrow> int \<Rightarrow> state \<Rightarrow> outcome \<times> state" where
  "evaluate_after_epochs env evaluator f s =
     (case (if callable evaluator then Some evaluator else attr_run evaluator) of
        None \<Rightarrow> (Raise AttributeError, s)
      | Some cb \<Rightarrow>
          (Normal, s\<lparr>after_epochs :=
             add_hook cb f (EVALUATION (HookPriority env)) (after_epochs s)\<rparr>))"

definition evaluate_after ::
  "env \<Rightarrow> pyobj \<Rightarrow> int option \<Rightarrow> int option \<Rightarrow> state \<Rightarrow> outcome \<times> state" where
  "evaluate_after env evaluator epochs steps s =
     (case check_epochs_and_steps_arg epochs steps of
        Some e \<Rightarrow> (Raise e, s)
      | None \<Rightarrow>
          (case epochs of
             Some f \<Rightarrow> evaluate_after_epochs env evaluator f s
           | None \<Rightarrow> (case steps of
                         Some f \<Rightarrow> evaluate_after_steps env evaluator f s
                       | None \<Rightarrow> (Raise TypeError, s))))"

definition anneal_after_steps :: "env \<Rightarrow> pyobj \<Rightarrow> int \<Rightarrow> state \<Rightarrow> outcome \<times> state" where
  "anneal_after_steps env v f s =
     (case (if callable v then Some v else attr_anneal v) of
        None \<Rightarrow> (Raise AttributeError, s)
      | Some cb \<Rightarrow>
          (Normal, s\<lparr>after_steps :=
             add_hook cb f (ANNEALING (HookPriority env)) (after_steps s)\<rparr>))"

definition anneal_after_epochs :: "env \<Rightarrow> pyobj \<Rightarrow> int \<Rightarrow> state \<Rightarrow> outcome \<times> state" where
  "anneal_after_epochs env v f s =
     (case (if callable v then Some v else attr_anneal v) of
        None \<Rightarrow> (Raise AttributeError, s)
      | Some cb \<Rightarrow>
          (Normal, s\<lparr>after_epochs :=
             add_hook cb f (ANNEALING (HookPriority env)) (after_epochs s)\<rparr>))"

definition anneal_after ::
  "env \<Rightarrow> pyobj \<Rightarrow> int option \<Rightarrow> int option \<Rightarrow> state \<Rightarrow> outcome \<times> state" where
  "anneal_after env v epochs steps s =
     (case check_epochs_and_steps_arg epochs steps of
        Some e \<Rightarrow> (Raise e, s)
      | None \<Rightarrow>
          (case epochs of
             Some f \<Rightarrow> anneal_after_epochs env v f s
           | None \<Rightarrow> (case steps of
                         Some f \<Rightarrow> anneal_after_steps env v f s
                       | None \<Rightarrow> (Raise TypeError, s))))"

subsection \<open>The prescribed order of calls\<close>

text \<open>
  The order of calls that section 4.3 of the specification prescribes: around each
  step the before-step hooks, the step runner, the after-step hooks; around the
  steps of an epoch the before-epoch and the after-epoch hooks.
\<close>

definition step_calls :: "session \<Rightarrow> payload \<Rightarrow> call list" where
  "step_calls sess p = [CallHooks BeforeSteps, RunStep sess p, CallHooks AfterSteps]"

definition epoch_calls :: "env \<Rightarrow> session \<Rightarrow> epoch \<Rightarrow> call list" where
  "epoch_calls env sess ep =
     CallHooks BeforeEpochs
       # concat (map (step_calls sess) (yielded (iter_steps env ep)))
       @ [CallHooks AfterEpochs]"

subsection \<open>Invariants of a run\<close>

text \<open>
  \<open>guards rerun\<close>: a call of \<open>run()\<close> on a running trainer is refused and changes
  nothing. \<open>refused\<close> holds of the marks that callbacks can leave when every nested
  call is refused. \<open>evolves s cs s'\<close>: from \<open>s\<close> to \<open>s'\<close> the calls \<open>cs\<close> were
  made, each counter advanced by the number of \<open>call_hooks\<close> calls on its list, and
  nothing else changed but the marks and the number of nested calls.
  \<open>proceeds m s X\<close>: the computation \<open>m\<close> started in \<open>s\<close> has an outcome; the
  calls it makes are the first of \<open>X\<close>, and all of \<open>X\<close> if it completes; and it
  raises \<open>RuntimeError\<close> only after a nested call of \<open>run()\<close>.
\<close>

definition guards :: "(state \<Rightarrow> result) \<Rightarrow> bool" where
  "guards rerun \<longleftrightarrow> (\<forall>s. is_fitting s \<longrightarrow> rerun s = Some (Raise RuntimeError, s))"

fun refused :: "mark \<Rightarrow> bool" where
  "refused (Ran i) = True"
| "refused (RunReturned i) = False"
| "refused (RunRaised i e) = (e = RuntimeError)"

definition evolves :: "state \<Rightarrow> call list \<Rightarrow> state \<Rightarrow> bool" where
  "evolves s cs s' \<longleftrightarrow>
     is_fitting s' = is_fitting s
     \<and> (\<forall>w. hooks (get_hooks w s') = hooks (get_hooks w s)
            \<and> counter (get_hooks w s')
                = counter (get_hooks w s) + int (count_list cs (CallHooks w)))
     \<and> calls s' = calls s @ cs
     \<and> (\<exists>ms. fired s' = fired s @ ms \<and> list_all refused ms)
     \<and> reentries s \<le> reentries s'"

definition proceeds :: "result \<Rightarrow> state \<Rightarrow> call list \<Rightarrow> bool" where
  "proceeds m s X \<longleftrightarrow>
     (\<exists>r s' cs. m = Some (r, s') \<and> evolves s cs s'
        \<and> (\<exists>rest. X = cs @ rest)
        \<and> (r = Normal \<longrightarrow> cs = X)
        \<and> (r = Raise RuntimeError \<longrightarrow> reentries s < reentries s'))"

section \<open>Example inputs\<close>

text \<open>
  A trainer as \<open>__init__\<close> leaves it, and collaborators for a run of two epochs with
  two steps each in which nothing fails.
\<close>

definition fresh :: state where
  "fresh = \<lparr>before_epochs = HookList, after_epochs = HookList,
            before_steps = HookList, after_steps = HookList,
            is_fitting = False, calls = [], fired = [], reentries = 0\<rparr>"

definition two_by_two :: env where
  "two_by_two =
     \<lparr>loop = \<lparr>print_logs = PyObj 0 (Some Returns) None None,
              print_training_summary = Succeeds,
              iter_epochs = Yield 0 (Yield 1 Exhausted)\<rparr>,
      HookPriority = \<lparr>EVALUATION = 500, ANNEALING = 1500, LOGGING = 10000\<rparr>,
      get_default_session_or_error = Inr 7,
      ensure_variables_initialized = None,
      iter_steps = (\<lambda>ep. Yield (10 * ep) (Yield (10 * ep + 1) Exhausted)),
      run_step = (\<lambda>sess p. Succeeds)\<rparr>"

text \<open>A callable, an evaluator with a \<open>run\<close> method, a value with an \<open>anneal\<close> method.\<close>

definition plain_callable :: pyobj where
  "plain_callable = PyObj 1 (Some Returns) None None"

definition evaluator_object :: pyobj where
  "evaluator_object = PyObj 2 None (Some (PyObj 3 (Some Returns) None None)) None"

definition annealing_value :: pyobj where
  "annealing_value = PyObj 4 None None (Some (PyObj 5 (Some Returns) None None))"

text \<open>
  A trainer with a hook before every epoch and a hook after every second step, and
  the state in which a run with \<open>two_by_two\<close> leaves it; collaborators whose step
  runner fails on payload 1; a trainer with a hook that calls \<open>run()\<close>, and one
  with a hook that calls \<open>run()\<close> inside \<open>try\<close>/\<open>except\<close>.
\<close>

definition logged :: state where
  "logged = fresh\<lparr>after_steps := add_hook plain_callable 2 0 HookList,
                  before_epochs := add_hook plain_callable 1 0 HookList\<rparr>"


definition failing_step :: env where
  "failing_step =
     two_by_two\<lparr>run_step := (\<lambda>sess p. if p = 1 then Fails 3 else Succeeds)\<rparr>"

definition reentering_step :: env where
  "reentering_step =
     two_by_two\<lparr>run_step := (\<lambda>sess p. if p = 1 then Reenters else Succeeds)\<rparr>"

definition nesting :: state where
  "nesting = fresh\<lparr>before_epochs := add_hook (PyObj 9 (Some CallsRun) None None) 1 0 HookList\<rparr>"

definition trying :: state where
  "trying = fresh\<lparr>before_epochs := add_hook (PyObj 8 (Some TriesRun) None None) 1 0 HookList\<rparr>"








section \<open>Properties of the shape utilities\<close>

lemma resolve_loop_eq:
  assumes r: "r = (\<lambda>a. if a < 0 then a + ndims else a)"
  shows "resolve_loop ndims axis ret =
     (if \<forall>a \<in> set axis. 0 \<le> r a \<and> r a < ndims
      then Inr (ret @ map r axis) else Inl ValueError)"
proof (induction axis arbitrary: ret)
  case Nil
  show ?case by simp
next
  case (Cons a axis)
  have step: "resolve_loop ndims (a # axis) ret =
      (if r a < 0 \<or> r a \<ge> ndims then Inl ValueError
       else resolve_loop ndims axis (ret @ [r a]))"
    by (simp add: r Let_def)
  show ?case unfolding step Cons.IH by auto
qed

text \<open>
  Claim C9. \<open>resolve_negative_axis ndims axis\<close> returns the list in which every
  negative element \<open>a\<close> is replaced by \<open>a + ndims\<close>, in the same order and of the same
  length; it raises \<open>ValueError\<close> exactly when some resolved element is outside
  \<open>[0, ndims)\<close>; and every index of a returned list is inside \<open>[0, ndims)\<close>.
\<close>

theorem resolve_negative_axis_spec:
  "(resolve_negative_axis ndims axis = Inl ValueError \<longleftrightarrow>
      (\<exists>a \<in> set axis. \<not> (0 \<le> (if a < 0 then a + ndims else a)
                           \<and> (if a < 0 then a + ndims else a) < ndims)))
   \<and> (resolve_negative_axis ndims axis \<noteq> Inl ValueError \<longrightarrow>
        resolve_negative_axis ndims axis =
          Inr (map (\<lambda>a. if a < 0 then a + ndims else a) axis))
   \<and> (\<forall>ret. resolve_negative_axis ndims axis = Inr ret \<longrightarrow>
        length ret = length axis \<and> (\<forall>i \<in> set ret. 0 \<le> i \<and> i < ndims))"
proof -
  define r where "r = (\<lambda>a. if a < 0 then a + ndims else a)"
  have eq: "resolve_negative_axis ndims axis =
      (if \<forall>a \<in> set axis. 0 \<le> r a \<and> r a < ndims
       then Inr (map r axis) else Inl ValueError)"
    unfolding resolve_negative_axis_def using resolve_loop_eq [OF r_def, of axis "[]"] by simp
  have "(resolve_negative_axis ndims axis = Inl ValueError \<longleftrightarrow>
      (\<exists>a \<in> set axis. \<not> (0 \<le> r a \<and> r a < ndims)))
   \<and> (resolve_negative_axis ndims axis \<noteq> Inl ValueError \<longrightarrow>
        resolve_negative_axis ndims axis = Inr (map r axis))
   \<and> (\<forall>ret. resolve_negative_axis ndims axis = Inr ret \<longrightarrow>
        length ret = length axis \<and> (\<forall>i \<in> set ret. 0 \<le> i \<and> i < ndims))"
    unfolding eq by auto
  then show ?thesis unfolding r_def .
qed

theorem resolve_negative_axis_spec_witness:
  "resolve_negative_axis 4 [0, -1, -2] = Inr [0, 3, 2]
   \<and> resolve_negative_axis 4 [0, 4] = Inl ValueError
   \<and> resolve_negative_axis 4 [-5] = Inl ValueError"
proof -
  have a: "resolve_negative_axis 4 [0, -1, -2] = Inr [0, 3, 2]"
    using resolve_negative_axis_spec [of 4 "[0, -1, -2]"] by simp
  have b: "resolve_negative_axis 4 [0, 4] = Inl ValueError"
    using resolve_negative_axis_spec [of 4 "[0, 4]"] by simp
  have c: "resolve_negative_axis 4 [-5] = Inl ValueError"
    using resolve_negative_axis_spec [of 4 "[-5]"] by simp
  from a b c show ?thesis by simp
qed

lemma foldl_append_concat: "foldl (@) acc ts = acc @ concat ts"
  by (induction ts arbitrary: acc) simp_all

lemma concat_shapes_static:
  "concat_shapes (map StaticShape ss) = StaticShape (concat ss)"
proof -
  have "\<not> list_ex is_tensor_object (map StaticShape ss)"
    by (induction ss) simp_all
  moreover have "map shape_values (map StaticShape ss) = ss"
    by (induction ss) simp_all
  ultimately show ?thesis
    by (simp add: concat_shapes_def py_sum_tuples_def foldl_append_concat)
qed

text \<open>
  Claim C10. On plain tuples \<open>concat_shapes\<close> is the left-to-right concatenation:
  the empty sequence gives the empty tuple, and the result for \<open>ss1 @ ss2\<close> is the
  result for \<open>ss1\<close> followed by the result for \<open>ss2\<close>.
\<close>

theorem concat_shapes_monoid_hom:
  "concat_shapes (map StaticShape ss) = StaticShape (concat ss)
   \<and> concat_shapes [] = StaticShape []
   \<and> (\<exists>t1 t2. concat_shapes (map StaticShape ss1) = StaticShape t1
        \<and> concat_shapes (map StaticShape ss2) = StaticShape t2
        \<and> concat_shapes (map StaticShape (ss1 @ ss2)) = StaticShape (t1 @ t2))"
proof -
  have "concat_shapes [] = StaticShape []"
    using concat_shapes_static [of "[]"] by simp
  moreover have "concat_shapes (map StaticShape (ss1 @ ss2))
      = StaticShape (concat ss1 @ concat ss2)"
    using concat_shapes_static [of "ss1 @ ss2"] by simp
  ultimately show ?thesis
    using concat_shapes_static [of ss] concat_shapes_static [of ss1]
      concat_shapes_static [of ss2] by blast
qed

section \<open>Properties of hook registration\<close>

lemma check_epochs_and_steps_arg_cases:
  "check_epochs_and_steps_arg (Some a) (Some b) = Some ValueError"
  "check_epochs_and_steps_arg None None = Some ValueError"
  "check_epochs_and_steps_arg (Some a) None = None"
  "check_epochs_and_steps_arg None (Some b) = None"
  by (simp_all add: check_epochs_and_steps_arg_def)

lemma log_after_raises:
  "fst (log_after env epochs steps s) = Raise ValueError \<longleftrightarrow>
     (epochs \<noteq> None \<and> steps \<noteq> None) \<or> (epochs = None \<and> steps = None)"
  by (cases epochs; cases steps)
     (simp_all add: log_after_def check_epochs_and_steps_arg_cases
        log_after_epochs_def log_after_steps_def)

lemma evaluate_after_raises:
  "fst (evaluate_after env ev epochs steps s) = Raise ValueError \<longleftrightarrow>
     (epochs \<noteq> None \<and> steps \<noteq> None) \<or> (epochs = None \<and> steps = None)"
  by (cases epochs; cases steps)
     (simp_all add: evaluate_after_def check_epochs_and_steps_arg_cases
        evaluate_after_epochs_def evaluate_after_steps_def split: option.splits)

lemma anneal_after_raises:
  "fst (anneal_after env v epochs steps s) = Raise ValueError \<longleftrightarrow>
     (epochs \<noteq> None \<and> steps \<noteq> None) \<or> (epochs = None \<and> steps = None)"
  by (cases epochs; cases steps)
     (simp_all add: anneal_after_def check_epochs_and_steps_arg_cases
        anneal_after_epochs_def anneal_after_steps_def split: option.splits)

lemma log_after_failure_state:
  "fst (log_after env epochs steps s) \<noteq> Normal \<Longrightarrow> snd (log_after env epochs steps s) = s"
  by (cases epochs; cases steps)
     (simp_all add: log_after_def check_epochs_and_steps_arg_cases
        log_after_epochs_def log_after_steps_def)

lemma variant_failure_state:
  "fst (evaluate_after_steps env x f s) \<noteq> Normal \<Longrightarrow>
     snd (evaluate_after_steps env x f s) = s"
  "fst (evaluate_after_epochs env x f s) \<noteq> Normal \<Longrightarrow>
     snd (evaluate_after_epochs env x f s) = s"
  "fst (anneal_after_steps env x f s) \<noteq> Normal \<Longrightarrow>
     snd (anneal_after_steps env x f s) = s"
  "fst (anneal_after_epochs env x f s) \<noteq> Normal \<Longrightarrow>
     snd (anneal_after_epochs env x f s) = s"
  by (cases "callable x"; cases "attr_run x"; cases "attr_anneal x";
      simp add: evaluate_after_epochs_def evaluate_after_steps_def
        anneal_after_epochs_def anneal_after_steps_def)+

lemma evaluate_after_failure_state:
  "fst (evaluate_after env ev epochs steps s) \<noteq> Normal \<Longrightarrow>
     snd (evaluate_after env ev epochs steps s) = s"
  by (cases epochs; cases steps)
     (simp_all add: evaluate_after_def check_epochs_and_steps_arg_cases
        variant_failure_state)

lemma anneal_after_failure_state:
  "fst (anneal_after env v epochs steps s) \<noteq> Normal \<Longrightarrow>
     snd (anneal_after env v epochs steps s) = s"
  by (cases epochs; cases steps)
     (simp_all add: anneal_after_def check_epochs_and_steps_arg_cases
        variant_failure_state)

lemma set_insert_hook: "set (insert_hook h hs) = insert h (set hs)"
  by (induction hs) auto

lemma length_insert_hook: "length (insert_hook h hs) = Suc (length hs)"
  by (induction hs) auto

text \<open>
  Claim C4. Each of \<open>log_after\<close>, \<open>evaluate_after\<close> and \<open>anneal_after\<close> raises the
  \<open>ValueError\<close> of \<open>check_epochs_and_steps_arg\<close> exactly when both of \<open>epochs\<close> and
  \<open>steps\<close> are given or neither is; and a call that raises leaves the trainer, with
  all four hook lists, as it was.
\<close>

theorem cadence_registration_error:
  "(fst (log_after env epochs steps s) = Raise ValueError \<longleftrightarrow>
      (epochs \<noteq> None \<and> steps \<noteq> None) \<or> (epochs = None \<and> steps = None))
   \<and> (fst (evaluate_after env ev epochs steps s) = Raise ValueError \<longleftrightarrow>
      (epochs \<noteq> None \<and> steps \<noteq> None) \<or> (epochs = None \<and> steps = None))
   \<and> (fst (anneal_after env v epochs steps s) = Raise ValueError \<longleftrightarrow>
      (epochs \<noteq> None \<and> steps \<noteq> None) \<or> (epochs = None \<and> steps = None))
   \<and> (fst (log_after env epochs steps s) \<noteq> Normal \<longrightarrow>
        snd (log_after env epochs steps s) = s)
   \<and> (fst (evaluate_after env ev epochs steps s) \<noteq> Normal \<longrightarrow>
        snd (evaluate_after env ev epochs steps s) = s)
   \<and> (fst (anneal_after env v epochs steps s) \<noteq> Normal \<longrightarrow>
        snd (anneal_after env v epochs steps s) = s)"
  using log_after_raises [of env epochs steps s]
    evaluate_after_raises [of env ev epochs steps s]
    anneal_after_raises [of env v epochs steps s]
    log_after_failure_state [of env epochs steps s]
    evaluate_after_failure_state [of env ev epochs steps s]
    anneal_after_failure_state [of env v epochs steps s]
  by blast

theorem cadence_registration_error_witness:
  "log_after two_by_two (Some 5) (Some 10) fresh = (Raise ValueError, fresh)
   \<and> log_after two_by_two None None fresh = (Raise ValueError, fresh)
   \<and> evaluate_after two_by_two plain_callable (Some 5) (Some 10) fresh
       = (Raise ValueError, fresh)
   \<and> anneal_after two_by_two plain_callable None None fresh = (Raise ValueError, fresh)
   \<and> fst (log_after two_by_two (Some 5) None fresh) \<noteq> Raise ValueError
   \<and> fst (anneal_after two_by_two plain_callable None (Some 10) fresh) \<noteq> Raise ValueError"
proof -
  have a: "log_after two_by_two (Some 5) (Some 10) fresh = (Raise ValueError, fresh)"
    using cadence_registration_error
      [of two_by_two "Some 5" "Some 10" fresh plain_callable plain_callable]
    by (simp add: prod_eq_iff)
  have b: "log_after two_by_two None None fresh = (Raise ValueError, fresh)"
    using cadence_registration_error
      [of two_by_two None None fresh plain_callable plain_callable]
    by (simp add: prod_eq_iff)
  have c: "evaluate_after two_by_two plain_callable (Some 5) (Some 10) fresh
      = (Raise ValueError, fresh)"
    using cadence_registration_error
      [of two_by_two "Some 5" "Some 10" fresh plain_callable plain_callable]
    by (simp add: prod_eq_iff)
  have d: "anneal_after two_by_two plain_callable None None fresh
      = (Raise ValueError, fresh)"
    using cadence_registration_error
      [of two_by_two None None fresh plain_callable plain_callable]
    by (simp add: prod_eq_iff)
  have e: "fst (log_after two_by_two (Some 5) None fresh) \<noteq> Raise ValueError"
    using cadence_registration_error
      [of two_by_two "Some 5" None fresh plain_callable plain_callable] by simp
  have f: "fst (anneal_after two_by_two plain_callable None (Some 10) fresh)
      \<noteq> Raise ValueError"
    using cadence_registration_error
      [of two_by_two None "Some 10" fresh plain_callable plain_callable] by simp
  from a b c d e f show ?thesis by simp
qed

text \<open>
  Claim C6. With \<open>epochs\<close> alone, \<open>log_after\<close>, \<open>evaluate_after\<close> and
  \<open>anneal_after\<close> are their \<open>_after_epochs\<close> variants, and with \<open>steps\<close> alone their
  \<open>_after_steps\<close> variants. The logging variants add the loop's \<open>print_logs\<close> to the
  after-epochs (after-steps) list with the given frequency and the priority
  \<open>LOGGING\<close>; the evaluation and annealing variants add their callback to the same
  lists with the priorities \<open>EVALUATION\<close> and \<open>ANNEALING\<close>; no other field of the
  trainer changes, and the new hook is in the list afterwards.
\<close>

theorem cadence_registration_dispatch:
  "log_after env (Some e) None s = log_after_epochs env e s
   \<and> log_after env None (Some st) s = log_after_steps env st s
   \<and> evaluate_after env ev (Some e) None s = evaluate_after_epochs env ev e s
   \<and> evaluate_after env ev None (Some st) s = evaluate_after_steps env ev st s
   \<and> anneal_after env v (Some e) None s = anneal_after_epochs env v e s
   \<and> anneal_after env v None (Some st) s = anneal_after_steps env v st s
   \<and> log_after_epochs env e s =
       (Normal, s\<lparr>after_epochs :=
          add_hook (print_logs (loop env)) e (LOGGING (HookPriority env)) (after_epochs s)\<rparr>)
   \<and> log_after_steps env st s =
       (Normal, s\<lparr>after_steps :=
          add_hook (print_logs (loop env)) st (LOGGING (HookPriority env)) (after_steps s)\<rparr>)
   \<and> (callable ev \<longrightarrow>
        evaluate_after_epochs env ev e s =
          (Normal, s\<lparr>after_epochs :=
             add_hook ev e (EVALUATION (HookPriority env)) (after_epochs s)\<rparr>)
      \<and> evaluate_after_steps env ev st s =
          (Normal, s\<lparr>after_steps :=
             add_hook ev st (EVALUATION (HookPriority env)) (after_steps s)\<rparr>))
   \<and> (callable v \<longrightarrow>
        anneal_after_epochs env v e s =
          (Normal, s\<lparr>after_epochs :=
             add_hook v e (ANNEALING (HookPriority env)) (after_epochs s)\<rparr>)
      \<and> anneal_after_steps env v st s =
          (Normal, s\<lparr>after_steps :=
             add_hook v st (ANNEALING (HookPriority env)) (after_steps s)\<rparr>))
   \<and> set (hooks (add_hook cb f p hl)) =
       insert \<lparr>callback = cb, freq = f, priority = p\<rparr> (set (hooks hl))
   \<and> counter (add_hook cb f p hl) = counter hl"
  by (simp add: log_after_def evaluate_after_def anneal_after_def
      check_epochs_and_steps_arg_cases log_after_epochs_def log_after_steps_def
      evaluate_after_epochs_def evaluate_after_steps_def
      anneal_after_epochs_def anneal_after_steps_def add_hook_def set_insert_hook)

theorem cadence_registration_dispatch_witness:
  "evaluate_after two_by_two plain_callable (Some 5) None fresh =
     (Normal, fresh\<lparr>after_epochs :=
        \<lparr>hooks = [\<lparr>callback = plain_callable, freq = 5, priority = 500\<rparr>],
         counter = 0\<rparr>\<rparr>)
   \<and> anneal_after two_by_two plain_callable None (Some 10) fresh =
     (Normal, fresh\<lparr>after_steps :=
        \<lparr>hooks = [\<lparr>callback = plain_callable, freq = 10, priority = 1500\<rparr>],
         counter = 0\<rparr>\<rparr>)"
proof -
  have c: "callable plain_callable"
    by (simp add: callable_def plain_callable_def)
  have h: "add_hook cb f p HookList
      = \<lparr>hooks = [\<lparr>callback = cb, freq = f, priority = p\<rparr>], counter = 0\<rparr>" for cb f p
    by (simp add: add_hook_def HookList_def)
  show ?thesis
    using cadence_registration_dispatch
      [of two_by_two 5 fresh 10 plain_callable plain_callable] c
    by (simp add: h fresh_def two_by_two_def)
qed

text \<open>
  Claim C7. \<open>evaluate_after_steps\<close> and \<open>evaluate_after_epochs\<close> register the
  evaluator itself when it is callable and its \<open>run\<close> attribute otherwise;
  \<open>anneal_after_steps\<close> and \<open>anneal_after_epochs\<close> do the same with the \<open>anneal\<close>
  attribute.
\<close>

theorem registered_callback:
  "(callable x \<longrightarrow>
      evaluate_after_steps env x f s =
        (Normal, s\<lparr>after_steps :=
           add_hook x f (EVALUATION (HookPriority env)) (after_steps s)\<rparr>)
    \<and> evaluate_after_epochs env x f s =
        (Normal, s\<lparr>after_epochs :=
           add_hook x f (EVALUATION (HookPriority env)) (after_epochs s)\<rparr>)
    \<and> anneal_after_steps env x f s =
        (Normal, s\<lparr>after_steps :=
           add_hook x f (ANNEALING (HookPriority env)) (after_steps s)\<rparr>)
    \<and> anneal_after_epochs env x f s =
        (Normal, s\<lparr>after_epochs :=
           add_hook x f (ANNEALING (HookPriority env)) (after_epochs s)\<rparr>))
   \<and> (\<not> callable x \<and> attr_run x = Some m \<longrightarrow>
      evaluate_after_steps env x f s =
        (Normal, s\<lparr>after_steps :=
           add_hook m f (EVALUATION (HookPriority env)) (after_steps s)\<rparr>)
    \<and> evaluate_after_epochs env x f s =
        (Normal, s\<lparr>after_epochs :=
           add_hook m f (EVALUATION (HookPriority env)) (after_epochs s)\<rparr>))
   \<and> (\<not> callable x \<and> attr_anneal x = Some a \<longrightarrow>
      anneal_after_steps env x f s =
        (Normal, s\<lparr>after_steps :=
           add_hook a f (ANNEALING (HookPriority env)) (after_steps s)\<rparr>)
    \<and> anneal_after_epochs env x f s =
        (Normal, s\<lparr>after_epochs :=
           add_hook a f (ANNEALING (HookPriority env)) (after_epochs s)\<rparr>))
   \<and> callback ` set (hooks (add_hook cb f p hl)) = insert cb (callback ` set (hooks hl))"
  by (simp add: evaluate_after_epochs_def evaluate_after_steps_def
      anneal_after_epochs_def anneal_after_steps_def add_hook_def set_insert_hook)

theorem registered_callback_witness:
  "evaluate_after_steps two_by_two plain_callable 3 fresh =
     (Normal, fresh\<lparr>after_steps :=
        \<lparr>hooks = [\<lparr>callback = plain_callable, freq = 3, priority = 500\<rparr>],
         counter = 0\<rparr>\<rparr>)
   \<and> evaluate_after_steps two_by_two evaluator_object 3 fresh =
     (Normal, fresh\<lparr>after_steps :=
        \<lparr>hooks = [\<lparr>callback = PyObj 3 (Some Returns) None None, freq = 3,
                   priority = 500\<rparr>],
         counter = 0\<rparr>\<rparr>)
   \<and> anneal_after_epochs two_by_two annealing_value 2 fresh =
     (Normal, fresh\<lparr>after_epochs :=
        \<lparr>hooks = [\<lparr>callback = PyObj 5 (Some Returns) None None, freq = 2,
                   priority = 1500\<rparr>],
         counter = 0\<rparr>\<rparr>)"
proof -
  have h: "add_hook cb f p HookList
      = \<lparr>hooks = [\<lparr>callback = cb, freq = f, priority = p\<rparr>], counter = 0\<rparr>" for cb f p
    by (simp add: add_hook_def HookList_def)
  have a: "evaluate_after_steps two_by_two plain_callable 3 fresh =
     (Normal, fresh\<lparr>after_steps :=
        \<lparr>hooks = [\<lparr>callback = plain_callable, freq = 3, priority = 500\<rparr>],
         counter = 0\<rparr>\<rparr>)"
    using registered_callback [of plain_callable two_by_two 3 fresh]
    by (simp add: callable_def plain_callable_def h fresh_def two_by_two_def)
  have b: "evaluate_after_steps two_by_two evaluator_object 3 fresh =
     (Normal, fresh\<lparr>after_steps :=
        \<lparr>hooks = [\<lparr>callback = PyObj 3 (Some Returns) None None, freq = 3,
                   priority = 500\<rparr>],
         counter = 0\<rparr>\<rparr>)"
    using registered_callback
      [of evaluator_object two_by_two 3 fresh "PyObj 3 (Some Returns) None None"]
    by (simp add: callable_def evaluator_object_def h fresh_def two_by_two_def)
  have c: "anneal_after_epochs two_by_two annealing_value 2 fresh =
     (Normal, fresh\<lparr>after_epochs :=
        \<lparr>hooks = [\<lparr>callback = PyObj 5 (Some Returns) None None, freq = 2,
                   priority = 1500\<rparr>],
         counter = 0\<rparr>\<rparr>)"
    using registered_callback
      [of annealing_value two_by_two 2 fresh _ "PyObj 5 (Some Returns) None None"]
    by (simp add: callable_def annealing_value_def h fresh_def two_by_two_def)
  from a b c show ?thesis by simp
qed

section \<open>Properties of run\<close>

lemma get_set_hooks [simp]:
  "get_hooks w (set_hooks w' hl s) = (if w = w' then hl else get_hooks w s)"
  by (cases w; cases w') simp_all

lemma set_hooks_fields [simp]:
  "is_fitting (set_hooks w hl s) = is_fitting s"
  "calls (set_hooks w hl s) = calls s"
  "fired (set_hooks w hl s) = fired s"
  "reentries (set_hooks w hl s) = reentries s"
  by (cases w; simp)+

lemma get_hooks_fields [simp]:
  "get_hooks w (s\<lparr>calls := c\<rparr>) = get_hooks w s"
  "get_hooks w (s\<lparr>fired := f\<rparr>) = get_hooks w s"
  "get_hooks w (s\<lparr>is_fitting := b\<rparr>) = get_hooks w s"
  "get_hooks w (s\<lparr>reentries := k\<rparr>) = get_hooks w s"
  by (cases w; simp)+

lemma evolves_refl: "evolves s [] s"
  by (simp add: evolves_def)

lemma evolves_trans:
  assumes "evolves s cs s'" and "evolves s' cs' s''"
  shows "evolves s (cs @ cs') s''"
proof -
  from assms obtain ms ms' where
    "fired s' = fired s @ ms" "list_all refused ms"
    "fired s'' = fired s' @ ms'" "list_all refused ms'"
    by (auto simp: evolves_def)
  then have "fired s'' = fired s @ (ms @ ms') \<and> list_all refused (ms @ ms')"
    by simp
  then have "\<exists>m. fired s'' = fired s @ m \<and> list_all refused m" by blast
  then show ?thesis using assms by (simp add: evolves_def)
qed

lemma evolves_fired:
  assumes "list_all refused ms"
  shows "evolves s [] (s\<lparr>fired := fired s @ ms\<rparr>)"
  using assms by (auto simp: evolves_def)

lemma evolves_is_fitting: "evolves s cs s' \<Longrightarrow> is_fitting s \<Longrightarrow> is_fitting s'"
  by (simp add: evolves_def)

lemma evolves_reentries: "evolves s cs s' \<Longrightarrow> reentries s \<le> reentries s'"
  by (simp add: evolves_def)

text \<open>A nested call on a running trainer is refused; only the count of such calls grows.\<close>

lemma reenter_fitting:
  assumes "guards rerun" and "is_fitting s"
  shows "reenter rerun s = Some (Raise RuntimeError, s\<lparr>reentries := Suc (reentries s)\<rparr>)"
    and "evolves s [] (s\<lparr>reentries := Suc (reentries s)\<rparr>)"
  using assms by (simp_all add: reenter_def guards_def evolves_def)

lemma invoke_fitting:
  assumes "guards rerun" and "is_fitting s"
  shows "\<exists>r s'. invoke rerun cb s = Some (r, s') \<and> evolves s [] s'
           \<and> (r = Raise RuntimeError \<longrightarrow> reentries s < reentries s')"
proof (cases "call_impl cb")
  case None
  then show ?thesis by (simp add: invoke_def evolves_refl)
next
  case (Some b)
  note rr = reenter_fitting [OF assms]
  show ?thesis
  proof (cases b)
    case Returns
    then show ?thesis using Some evolves_fired [of "[Ran (ident cb)]" s]
      by (simp add: invoke_def)
  next
    case (Raises t)
    then show ?thesis using Some by (simp add: invoke_def evolves_refl)
  next
    case CallsRun
    then show ?thesis using Some rr by (simp add: invoke_def)
  next
    case TriesRun
    let ?s1 = "s\<lparr>reentries := Suc (reentries s)\<rparr>"
    have "evolves ?s1 [] (?s1\<lparr>fired := fired ?s1 @ [RunRaised (ident cb) RuntimeError]\<rparr>)"
      by (rule evolves_fired) simp
    from evolves_trans [OF rr(2) this]
    have "evolves s [] (?s1\<lparr>fired := fired ?s1 @ [RunRaised (ident cb) RuntimeError]\<rparr>)"
      by simp
    then show ?thesis using Some TriesRun rr(1) by (simp add: invoke_def)
  qed
qed

lemma call_due_fitting:
  assumes "guards rerun" and "is_fitting s"
  shows "\<exists>r s'. call_due rerun c hs s = Some (r, s') \<and> evolves s [] s'
           \<and> (r = Raise RuntimeError \<longrightarrow> reentries s < reentries s')"
  using assms(2)
proof (induction hs arbitrary: s)
  case Nil
  then show ?case by (simp add: evolves_refl)
next
  case (Cons h hs)
  show ?case
  proof (cases "c mod freq h = 0")
    case False
    then show ?thesis using Cons.IH [OF Cons.prems] by simp
  next
    case True
    from invoke_fitting [OF assms(1) Cons.prems, of "callback h"]
    obtain r s1 where i: "invoke rerun (callback h) s = Some (r, s1)"
      and e1: "evolves s [] s1"
      and r1: "r = Raise RuntimeError \<longrightarrow> reentries s < reentries s1"
      by blast
    show ?thesis
    proof (cases r)
      case (Raise e)
      then show ?thesis using True i e1 r1 by (auto simp: and_then_def)
    next
      case Normal
      from Cons.IH [OF evolves_is_fitting [OF e1 Cons.prems]]
      obtain r2 s2 where c2: "call_due rerun c hs s1 = Some (r2, s2)"
        and e2: "evolves s1 [] s2"
        and r2: "r2 = Raise RuntimeError \<longrightarrow> reentries s1 < reentries s2"
        by blast
      have "evolves s [] s2" using evolves_trans [OF e1 e2] by simp
      moreover have "r2 = Raise RuntimeError \<longrightarrow> reentries s < reentries s2"
        using r2 evolves_reentries [OF e1] by auto
      ultimately show ?thesis using True i Normal c2 by (auto simp: and_then_def)
    qed
  qed
qed

lemma evolves_call_hooks_start:
  "evolves s [CallHooks w]
     ((set_hooks w ((get_hooks w s)\<lparr>counter := counter (get_hooks w s) + 1\<rparr>) s)
        \<lparr>calls := calls s @ [CallHooks w]\<rparr>)"
  by (auto simp: evolves_def)

lemma call_hooks_fitting:
  assumes "guards rerun" and "is_fitting s"
  shows "\<exists>r s'. call_hooks rerun w s = Some (r, s') \<and> evolves s [CallHooks w] s'
           \<and> (r = Raise RuntimeError \<longrightarrow> reentries s < reentries s')"
proof -
  let ?s1 = "(set_hooks w ((get_hooks w s)\<lparr>counter := counter (get_hooks w s) + 1\<rparr>) s)
        \<lparr>calls := calls s @ [CallHooks w]\<rparr>"
  have f1: "is_fitting ?s1" using assms(2) by simp
  from call_due_fitting [OF assms(1) f1,
      of "counter (get_hooks w s) + 1" "hooks (get_hooks w s)"]
  obtain r s' where
    c: "call_due rerun (counter (get_hooks w s) + 1) (hooks (get_hooks w s)) ?s1 = Some (r, s')"
    and e: "evolves ?s1 [] s'"
    and rr: "r = Raise RuntimeError \<longrightarrow> reentries ?s1 < reentries s'"
    by blast
  have "evolves s [CallHooks w] s'"
    using evolves_trans [OF evolves_call_hooks_start e] by simp
  moreover have "call_hooks rerun w s = Some (r, s')"
    using c by (simp add: call_hooks_def Let_def)
  ultimately show ?thesis using rr by auto
qed

lemma proceeds_and_then:
  assumes m: "proceeds m s X"
    and f: "\<And>s1. evolves s X s1 \<Longrightarrow> proceeds (f s1) s1 Y"
  shows "proceeds (and_then m f) s (X @ Y)"
proof -
  from m obtain r s1 cs rest where m1: "m = Some (r, s1)" and e1: "evolves s cs s1"
    and p1: "X = cs @ rest"
    and n1: "r = Normal \<longrightarrow> cs = X"
    and r1: "r = Raise RuntimeError \<longrightarrow> reentries s < reentries s1"
    by (auto simp: proceeds_def)
  show ?thesis
  proof (cases r)
    case (Raise e)
    then have "and_then m f = Some (r, s1)" using m1 by (simp add: and_then_def)
    moreover have "X @ Y = cs @ (rest @ Y)" using p1 by simp
    ultimately show ?thesis using e1 r1 Raise unfolding proceeds_def by blast
  next
    case Normal
    then have e1': "evolves s X s1" using e1 n1 by simp
    from f [OF e1'] obtain r2 s2 cs2 rest2 where f2: "f s1 = Some (r2, s2)"
      and e2: "evolves s1 cs2 s2" and p2: "Y = cs2 @ rest2"
      and n2: "r2 = Normal \<longrightarrow> cs2 = Y"
      and r2: "r2 = Raise RuntimeError \<longrightarrow> reentries s1 < reentries s2"
      by (auto simp: proceeds_def)
    have a: "and_then m f = Some (r2, s2)" using m1 Normal f2 by (simp add: and_then_def)
    have b: "evolves s (X @ cs2) s2" by (rule evolves_trans [OF e1' e2])
    have c: "X @ Y = (X @ cs2) @ rest2" using p2 by simp
    have d: "r2 = Normal \<longrightarrow> X @ cs2 = X @ Y" using n2 by simp
    have e: "r2 = Raise RuntimeError \<longrightarrow> reentries s < reentries s2"
      using r2 evolves_reentries [OF e1'] by auto
    show ?thesis unfolding proceeds_def using a b c d e by blast
  qed
qed

lemma proceeds_call_hooks:
  assumes "guards rerun" and "is_fitting s"
  shows "proceeds (call_hooks rerun w s) s [CallHooks w]"
proof -
  from call_hooks_fitting [OF assms, of w] obtain r s' where
    "call_hooks rerun w s = Some (r, s')" "evolves s [CallHooks w] s'"
    "r = Raise RuntimeError \<longrightarrow> reentries s < reentries s'" by blast
  moreover have "[CallHooks w] = [CallHooks w] @ []" by simp
  ultimately show ?thesis unfolding proceeds_def by blast
qed

lemma proceeds_reenter:
  assumes "guards rerun" and "is_fitting s"
  shows "proceeds (reenter rerun s) s []"
  using reenter_fitting [OF assms] by (auto simp: proceeds_def)

lemma proceeds_external:
  assumes "\<And>w. count_list cs (CallHooks w) = 0"
  shows "proceeds (external failure (s\<lparr>calls := calls s @ cs\<rparr>)) s cs"
proof -
  have "evolves s cs (s\<lparr>calls := calls s @ cs\<rparr>)"
    using assms by (simp add: evolves_def)
  then show ?thesis
    by (cases failure) (auto simp: proceeds_def external_def)
qed

lemma proceeds_run_step_call:
  assumes "guards rerun" and "is_fitting s"
  shows "proceeds (run_step_call rerun env sess p s) s [RunStep sess p]"
proof -
  let ?s1 = "s\<lparr>calls := calls s @ [RunStep sess p]\<rparr>"
  have e: "evolves s [RunStep sess p] ?s1" by (simp add: evolves_def)
  have f: "is_fitting ?s1" using assms(2) by simp
  show ?thesis
  proof (cases "run_step env sess p")
    case Succeeds
    then show ?thesis using e by (auto simp: proceeds_def run_step_call_def perform_def)
  next
    case (Fails t)
    then show ?thesis using e by (auto simp: proceeds_def run_step_call_def perform_def)
  next
    case Reenters
    from evolves_trans [OF e reenter_fitting(2) [OF assms(1) f]]
    have "evolves s [RunStep sess p] (?s1\<lparr>reentries := Suc (reentries ?s1)\<rparr>)" by simp
    then show ?thesis using Reenters reenter_fitting(1) [OF assms(1) f]
      by (auto simp: proceeds_def run_step_call_def perform_def)
  qed
qed

lemma proceeds_step_loop:
  assumes "guards rerun" and "is_fitting s"
  shows "proceeds (step_loop rerun env sess g s) s
           (concat (map (step_calls sess) (yielded g)))"
  using assms(2)
proof (induction g arbitrary: s)
  case Exhausted
  show ?case using evolves_refl [of s] by (auto simp: proceeds_def)
next
  case (Throw t)
  show ?case using evolves_refl [of s] by (auto simp: proceeds_def)
next
  case (Reenter g)
  have "proceeds (and_then (reenter rerun s) (step_loop rerun env sess g)) s
      ([] @ concat (map (step_calls sess) (yielded g)))"
  proof (rule proceeds_and_then [OF proceeds_reenter [OF assms(1) Reenter.prems]])
    fix s1 assume "evolves s [] s1"
    then have "is_fitting s1" using Reenter.prems by (rule evolves_is_fitting)
    then show "proceeds (step_loop rerun env sess g s1) s1
        (concat (map (step_calls sess) (yielded g)))"
      by (rule Reenter.IH)
  qed
  then show ?case by simp
next
  case (Yield p g)
  have "proceeds (step_loop rerun env sess (Yield p g) s) s
      ([CallHooks BeforeSteps] @ [RunStep sess p] @ [CallHooks AfterSteps]
        @ concat (map (step_calls sess) (yielded g)))"
    unfolding step_loop.simps
  proof (rule proceeds_and_then [OF proceeds_call_hooks [OF assms(1) Yield.prems]])
    fix s1 assume e1: "evolves s [CallHooks BeforeSteps] s1"
    then have f1: "is_fitting s1" using Yield.prems by (rule evolves_is_fitting)
    show "proceeds (and_then (run_step_call rerun env sess p s1)
        (\<lambda>s. and_then (call_hooks rerun AfterSteps s) (step_loop rerun env sess g))) s1
        ([RunStep sess p] @ [CallHooks AfterSteps]
           @ concat (map (step_calls sess) (yielded g)))"
    proof (rule proceeds_and_then [OF proceeds_run_step_call [OF assms(1) f1]])
      fix s2 assume e2: "evolves s1 [RunStep sess p] s2"
      then have f2: "is_fitting s2" using f1 by (rule evolves_is_fitting)
      show "proceeds (and_then (call_hooks rerun AfterSteps s2)
          (step_loop rerun env sess g)) s2
          ([CallHooks AfterSteps] @ concat (map (step_calls sess) (yielded g)))"
      proof (rule proceeds_and_then [OF proceeds_call_hooks [OF assms(1) f2]])
        fix s3 assume e3: "evolves s2 [CallHooks AfterSteps] s3"
        then have f3: "is_fitting s3" using f2 by (rule evolves_is_fitting)
        show "proceeds (step_loop rerun env sess g s3) s3
            (concat (map (step_calls sess) (yielded g)))"
          by (rule Yield.IH [OF f3])
      qed
    qed
  qed
  moreover have "concat (map (step_calls sess) (yielded (Yield p g))) =
      [CallHooks BeforeSteps] @ [RunStep sess p] @ [CallHooks AfterSteps]
        @ concat (map (step_calls sess) (yielded g))"
    by (simp add: step_calls_def)
  ultimately show ?case by (simp only:)
qed

lemma proceeds_epoch_loop:
  assumes "guards rerun" and "is_fitting s"
  shows "proceeds (epoch_loop rerun env sess g s) s
           (concat (map (epoch_calls env sess) (yielded g)))"
  using assms(2)
proof (induction g arbitrary: s)
  case Exhausted
  show ?case using evolves_refl [of s] by (auto simp: proceeds_def)
next
  case (Throw t)
  show ?case using evolves_refl [of s] by (auto simp: proceeds_def)
next
  case (Reenter g)
  have "proceeds (and_then (reenter rerun s) (epoch_loop rerun env sess g)) s
      ([] @ concat (map (epoch_calls env sess) (yielded g)))"
  proof (rule proceeds_and_then [OF proceeds_reenter [OF assms(1) Reenter.prems]])
    fix s1 assume "evolves s [] s1"
    then have "is_fitting s1" using Reenter.prems by (rule evolves_is_fitting)
    then show "proceeds (epoch_loop rerun env sess g s1) s1
        (concat (map (epoch_calls env sess) (yielded g)))"
      by (rule Reenter.IH)
  qed
  then show ?case by simp
next
  case (Yield ep g)
  have "proceeds (epoch_loop rerun env sess (Yield ep g) s) s
      ([CallHooks BeforeEpochs]
        @ concat (map (step_calls sess) (yielded (iter_steps env ep)))
        @ [CallHooks AfterEpochs]
        @ concat (map (epoch_calls env sess) (yielded g)))"
    unfolding epoch_loop.simps
  proof (rule proceeds_and_then [OF proceeds_call_hooks [OF assms(1) Yield.prems]])
    fix s1 assume e1: "evolves s [CallHooks BeforeEpochs] s1"
    then have f1: "is_fitting s1" using Yield.prems by (rule evolves_is_fitting)
    show "proceeds (and_then (step_loop rerun env sess (iter_steps env ep) s1)
        (\<lambda>s. and_then (call_hooks rerun AfterEpochs s) (epoch_loop rerun env sess g))) s1
        (concat (map (step_calls sess) (yielded (iter_steps env ep)))
           @ [CallHooks AfterEpochs]
           @ concat (map (epoch_calls env sess) (yielded g)))"
    proof (rule proceeds_and_then [OF proceeds_step_loop [OF assms(1) f1]])
      fix s2
      assume e2: "evolves s1 (concat (map (step_calls sess) (yielded (iter_steps env ep)))) s2"
      then have f2: "is_fitting s2" using f1 by (rule evolves_is_fitting)
      show "proceeds (and_then (call_hooks rerun AfterEpochs s2)
          (epoch_loop rerun env sess g)) s2
          ([CallHooks AfterEpochs] @ concat (map (epoch_calls env sess) (yielded g)))"
      proof (rule proceeds_and_then [OF proceeds_call_hooks [OF assms(1) f2]])
        fix s3 assume e3: "evolves s2 [CallHooks AfterEpochs] s3"
        then have f3: "is_fitting s3" using f2 by (rule evolves_is_fitting)
        show "proceeds (epoch_loop rerun env sess g s3) s3
            (concat (map (epoch_calls env sess) (yielded g)))"
          by (rule Yield.IH [OF f3])
      qed
    qed
  qed
  moreover have "concat (map (epoch_calls env sess) (yielded (Yield ep g))) =
      [CallHooks BeforeEpochs]
        @ concat (map (step_calls sess) (yielded (iter_steps env ep)))
        @ [CallHooks AfterEpochs]
        @ concat (map (epoch_calls env sess) (yielded g))"
    by (simp add: epoch_calls_def)
  ultimately show ?case by (simp only:)
qed

text \<open>
  What a loop that completes tells about the collaborators: the generator neither
  raised nor called \<open>run()\<close>, and every call of the step runner returned.
\<close>

lemma and_then_Normal:
  assumes "and_then m f = Some (Normal, s')"
  shows "\<exists>s1. m = Some (Normal, s1) \<and> f s1 = Some (Normal, s')"
  using assms by (auto simp: and_then_def split: option.splits outcome.splits)

lemma reenter_not_Normal:
  assumes "guards rerun" and "is_fitting s"
  shows "reenter rerun s \<noteq> Some (Normal, s')"
  using reenter_fitting(1) [OF assms] by simp

lemma step_loop_Normal:
  assumes "guards rerun" and "is_fitting s"
    and "step_loop rerun env sess g s = Some (Normal, s')"
  shows "completes g \<and> (\<forall>p \<in> set (yielded g). run_step env sess p = Succeeds)"
  using assms(2,3)
proof (induction g arbitrary: s)
  case Exhausted
  show ?case by simp
next
  case (Throw t)
  then show ?case by simp
next
  case (Reenter g)
  then show ?case
    using reenter_not_Normal [OF assms(1) Reenter.prems(1)]
    by (auto dest!: and_then_Normal)
next
  case (Yield p g)
  from Yield.prems(2) obtain s1 s2 s3 where
    c1: "call_hooks rerun BeforeSteps s = Some (Normal, s1)"
    and c2: "run_step_call rerun env sess p s1 = Some (Normal, s2)"
    and c3: "call_hooks rerun AfterSteps s2 = Some (Normal, s3)"
    and c4: "step_loop rerun env sess g s3 = Some (Normal, s')"
    by (auto dest!: and_then_Normal)
  from call_hooks_fitting [OF assms(1) Yield.prems(1), of BeforeSteps] c1
  have f1: "is_fitting s1" using Yield.prems(1) by (auto dest: evolves_is_fitting)
  let ?s1 = "s1\<lparr>calls := calls s1 @ [RunStep sess p]\<rparr>"
  have f1': "is_fitting ?s1" using f1 by simp
  have ok: "run_step env sess p = Succeeds"
    using c2 reenter_not_Normal [OF assms(1) f1']
    by (cases "run_step env sess p") (auto simp: run_step_call_def perform_def)
  from proceeds_run_step_call [OF assms(1) f1, of env sess p] c2
  have f2: "is_fitting s2" using f1 by (auto simp: proceeds_def dest: evolves_is_fitting)
  from call_hooks_fitting [OF assms(1) f2, of AfterSteps] c3
  have f3: "is_fitting s3" using f2 by (auto dest: evolves_is_fitting)
  from Yield.IH [OF f3 c4] ok show ?case by simp
qed

lemma epoch_loop_Normal:
  assumes "guards rerun" and "is_fitting s"
    and "epoch_loop rerun env sess g s = Some (Normal, s')"
  shows "completes g
     \<and> (\<forall>ep \<in> set (yielded g). completes (iter_steps env ep)
           \<and> (\<forall>p \<in> set (yielded (iter_steps env ep)). run_step env sess p = Succeeds))"
  using assms(2,3)
proof (induction g arbitrary: s)
  case Exhausted
  show ?case by simp
next
  case (Throw t)
  then show ?case by simp
next
  case (Reenter g)
  then show ?case
    using reenter_not_Normal [OF assms(1) Reenter.prems(1)]
    by (auto dest!: and_then_Normal)
next
  case (Yield ep g)
  from Yield.prems(2) obtain s1 s2 s3 where
    c1: "call_hooks rerun BeforeEpochs s = Some (Normal, s1)"
    and c2: "step_loop rerun env sess (iter_steps env ep) s1 = Some (Normal, s2)"
    and c3: "call_hooks rerun AfterEpochs s2 = Some (Normal, s3)"
    and c4: "epoch_loop rerun env sess g s3 = Some (Normal, s')"
    by (auto dest!: and_then_Normal)
  from call_hooks_fitting [OF assms(1) Yield.prems(1), of BeforeEpochs] c1
  have f1: "is_fitting s1" using Yield.prems(1) by (auto dest: evolves_is_fitting)
  from proceeds_step_loop [OF assms(1) f1, of env sess "iter_steps env ep"] c2
  have f2: "is_fitting s2" using f1 by (auto simp: proceeds_def dest: evolves_is_fitting)
  from call_hooks_fitting [OF assms(1) f2, of AfterEpochs] c3
  have f3: "is_fitting s3" using f2 by (auto dest: evolves_is_fitting)
  from Yield.IH [OF f3 c4] step_loop_Normal [OF assms(1) f1 c2] show ?case by simp
qed

lemma reset_all_fields:
  "is_fitting (foldl (\<lambda>s w. reset_hooks w s) s hook_lists) = is_fitting s"
  "fired (foldl (\<lambda>s w. reset_hooks w s) s hook_lists) = fired s"
  "reentries (foldl (\<lambda>s w. reset_hooks w s) s hook_lists) = reentries s"
  "calls (foldl (\<lambda>s w. reset_hooks w s) s hook_lists)
     = calls s @ map ResetHooks hook_lists"
  "hooks (get_hooks w (foldl (\<lambda>s w. reset_hooks w s) s hook_lists))
     = hooks (get_hooks w s)"
  "counter (get_hooks w (foldl (\<lambda>s w. reset_hooks w s) s hook_lists)) = 0"
  by (cases w; simp add: hook_lists_def reset_hooks_def reset_def)+



lemma run_body_fitting:
  assumes "guards rerun" and "is_fitting s"
  shows "\<exists>r s'. run_body rerun env s = Some (r, s')
     \<and> is_fitting s'
     \<and> (\<forall>w. hooks (get_hooks w s') = hooks (get_hooks w s))
     \<and> (\<exists>ms. fired s' = fired s @ ms \<and> list_all refused ms)
     \<and> reentries s \<le> reentries s'
     \<and> (r = Raise RuntimeError \<longrightarrow>
          reentries s < reentries s'
          \<and> (\<exists>sess cs. get_default_session_or_error env = Inr sess
                \<and> calls s' = calls s @ PrintTrainingSummary # cs))
     \<and> (\<forall>sess. get_default_session_or_error env = Inr sess
            \<and> ensure_variables_initialized env = None \<longrightarrow>
          (\<exists>cs rest. calls s' = calls s @ cs
             \<and> PrintTrainingSummary # map ResetHooks hook_lists
                 @ concat (map (epoch_calls env sess) (yielded (iter_epochs (loop env))))
                 = cs @ rest
             \<and> (r = Normal \<longrightarrow> rest = []
                  \<and> (\<forall>w. counter (get_hooks w s')
                        = int (count_list (concat (map (epoch_calls env sess)
                            (yielded (iter_epochs (loop env))))) (CallHooks w)))
                  \<and> print_training_summary (loop env) = Succeeds
                  \<and> completes (iter_epochs (loop env))
                  \<and> (\<forall>ep \<in> set (yielded (iter_epochs (loop env))).
                        completes (iter_steps env ep)
                        \<and> (\<forall>p \<in> set (yielded (iter_steps env ep)).
                              run_step env sess p = Succeeds)))))"
proof (cases "get_default_session_or_error env")
  case (Inl t)
  then show ?thesis using assms(2) by (simp add: run_body_def)
next
  case (Inr sess)
  show ?thesis
  proof (cases "ensure_variables_initialized env")
    case (Some t)
    then show ?thesis using Inr assms(2)
      by (simp add: run_body_def external_def and_then_def)
  next
    case None
    let ?X = "concat (map (epoch_calls env sess) (yielded (iter_epochs (loop env))))"
    show ?thesis
    proof (cases "print_training_summary (loop env)")
      case (Fails t)
      have "run_body rerun env s
          = Some (Raise (ExternalError t), s\<lparr>calls := calls s @ [PrintTrainingSummary]\<rparr>)"
        using Inr None Fails
        by (simp add: run_body_def external_def perform_def and_then_def)
      moreover have "PrintTrainingSummary # map ResetHooks hook_lists @ ?X
          = [PrintTrainingSummary] @ (map ResetHooks hook_lists @ ?X)" by simp
      ultimately show ?thesis using Inr assms(2) by auto
    next
      case Reenters
      let ?s1 = "s\<lparr>calls := calls s @ [PrintTrainingSummary]\<rparr>"
      have "is_fitting ?s1" using assms(2) by simp
      from reenter_fitting(1) [OF assms(1) this]
      have "run_body rerun env s
          = Some (Raise RuntimeError, ?s1\<lparr>reentries := Suc (reentries ?s1)\<rparr>)"
        using Inr None Reenters
        by (simp add: run_body_def external_def perform_def and_then_def)
      moreover have "PrintTrainingSummary # map ResetHooks hook_lists @ ?X
          = [PrintTrainingSummary] @ (map ResetHooks hook_lists @ ?X)" by simp
      ultimately show ?thesis using Inr assms(2) by auto
    next
      case no_failure: Succeeds
      let ?s1 = "foldl (\<lambda>s w. reset_hooks w s)
                   (s\<lparr>calls := calls s @ [PrintTrainingSummary]\<rparr>) hook_lists"
      have body: "run_body rerun env s
          = epoch_loop rerun env sess (iter_epochs (loop env)) ?s1"
        using Inr None no_failure
        by (simp add: run_body_def external_def perform_def and_then_def)
      have f1: "is_fitting ?s1" using assms(2) by (simp add: reset_all_fields)
      from proceeds_epoch_loop [OF assms(1) f1, of env sess "iter_epochs (loop env)"]
      obtain r s' cs rest where
        l: "epoch_loop rerun env sess (iter_epochs (loop env)) ?s1 = Some (r, s')"
        and e: "evolves ?s1 cs s'" and p: "?X = cs @ rest"
        and n: "r = Normal \<longrightarrow> cs = ?X"
        and rr: "r = Raise RuntimeError \<longrightarrow> reentries ?s1 < reentries s'"
        by (auto simp: proceeds_def)
      have a: "is_fitting s'" using e f1 by (rule evolves_is_fitting)
      have b: "\<forall>w. hooks (get_hooks w s') = hooks (get_hooks w s)"
        using e by (simp add: evolves_def reset_all_fields)
      have c: "\<exists>ms. fired s' = fired s @ ms \<and> list_all refused ms"
        using e by (simp add: evolves_def reset_all_fields)
      have d: "calls s' = calls s @ PrintTrainingSummary # map ResetHooks hook_lists @ cs"
        using e by (simp add: evolves_def reset_all_fields)
      have g: "\<forall>w. counter (get_hooks w s') = int (count_list cs (CallHooks w))"
        using e by (simp add: evolves_def reset_all_fields)
      have h: "reentries s \<le> reentries s'"
        using e by (simp add: evolves_def reset_all_fields)
      have i: "r = Raise RuntimeError \<longrightarrow> reentries s < reentries s'"
        using rr by (simp add: reset_all_fields)
      have j: "PrintTrainingSummary # map ResetHooks hook_lists @ ?X
          = (PrintTrainingSummary # map ResetHooks hook_lists @ cs) @ rest"
        using p by simp
      have k: "r = Normal \<longrightarrow> rest = []" using n p by auto
      have m: "r = Normal \<longrightarrow> completes (iter_epochs (loop env))
          \<and> (\<forall>ep \<in> set (yielded (iter_epochs (loop env))).
                completes (iter_steps env ep)
                \<and> (\<forall>p \<in> set (yielded (iter_steps env ep)).
                      run_step env sess p = Succeeds))"
        using epoch_loop_Normal [OF assms(1) f1, of env sess "iter_epochs (loop env)" s'] l
        by auto
      have last: "\<exists>cs' rest'. calls s' = calls s @ cs'
             \<and> PrintTrainingSummary # map ResetHooks hook_lists @ ?X = cs' @ rest'
             \<and> (r = Normal \<longrightarrow> rest' = []
                  \<and> (\<forall>w. counter (get_hooks w s')
                        = int (count_list ?X (CallHooks w)))
                  \<and> print_training_summary (loop env) = Succeeds
                  \<and> completes (iter_epochs (loop env))
                  \<and> (\<forall>ep \<in> set (yielded (iter_epochs (loop env))).
                        completes (iter_steps env ep)
                        \<and> (\<forall>p \<in> set (yielded (iter_steps env ep)).
                              run_step env sess p = Succeeds)))"
        using d j k g n m no_failure by blast
      have first: "r = Raise RuntimeError \<longrightarrow>
          reentries s < reentries s'
          \<and> (\<exists>sess cs. get_default_session_or_error env = Inr sess
                \<and> calls s' = calls s @ PrintTrainingSummary # cs)"
        using i d Inr by blast
      show ?thesis
        unfolding body l using a b c h first last Inr by simp
    qed
  qed
qed

lemma guards_run: "guards (run (Suc n) env)"
  by (simp add: guards_def)

lemma reenter_agree:
  assumes "guards r1" and "guards r2" and "is_fitting s"
  shows "reenter r1 s = reenter r2 s"
  using reenter_fitting(1) [OF assms(1,3)] reenter_fitting(1) [OF assms(2,3)] by simp

lemma invoke_agree:
  assumes "guards r1" and "guards r2" and "is_fitting s"
  shows "invoke r1 cb s = invoke r2 cb s"
  using reenter_agree [OF assms]
  by (simp add: invoke_def split: option.splits behaviour.splits)

lemma call_due_agree:
  assumes "guards r1" and "guards r2" and "is_fitting s"
  shows "call_due r1 c hs s = call_due r2 c hs s"
  using assms(3)
proof (induction hs arbitrary: s)
  case Nil
  show ?case by simp
next
  case (Cons h hs)
  from invoke_fitting [OF assms(1) Cons.prems, of "callback h"]
  obtain r s1 where i: "invoke r1 (callback h) s = Some (r, s1)" and e: "evolves s [] s1"
    by blast
  have f: "is_fitting s1" using e Cons.prems by (rule evolves_is_fitting)
  have "and_then (invoke r1 (callback h) s) (call_due r1 c hs)
      = and_then (invoke r2 (callback h) s) (call_due r2 c hs)"
    using i invoke_agree [OF assms(1,2) Cons.prems, of "callback h"] Cons.IH [OF f]
    by (cases r) (simp_all add: and_then_def)
  then show ?case using Cons.IH [OF Cons.prems] by simp
qed

lemma call_hooks_agree:
  assumes "guards r1" and "guards r2" and "is_fitting s"
  shows "call_hooks r1 w s = call_hooks r2 w s"
  using assms(3) by (simp add: call_hooks_def Let_def call_due_agree [OF assms(1,2)])

lemma run_step_call_agree:
  assumes "guards r1" and "guards r2" and "is_fitting s"
  shows "run_step_call r1 env sess p s = run_step_call r2 env sess p s"
proof -
  have "is_fitting (s\<lparr>calls := calls s @ [RunStep sess p]\<rparr>)" using assms(3) by simp
  from reenter_agree [OF assms(1,2) this] show ?thesis
    by (simp add: run_step_call_def perform_def split: action.splits)
qed

lemma and_then_agree:
  assumes "proceeds m s X" and "is_fitting s"
    and "\<And>s1. is_fitting s1 \<Longrightarrow> f s1 = g s1"
  shows "and_then m f = and_then m g"
proof -
  from assms(1) obtain r s1 cs where m: "m = Some (r, s1)" and e: "evolves s cs s1"
    by (auto simp: proceeds_def)
  have "is_fitting s1" using e assms(2) by (rule evolves_is_fitting)
  then show ?thesis using m assms(3) by (cases r) (simp_all add: and_then_def)
qed

lemma step_loop_agree:
  assumes "guards r1" and "guards r2" and "is_fitting s"
  shows "step_loop r1 env sess g s = step_loop r2 env sess g s"
  using assms(3)
proof (induction g arbitrary: s)
  case (Reenter g)
  have "and_then (reenter r1 s) (step_loop r1 env sess g)
      = and_then (reenter r2 s) (step_loop r1 env sess g)"
    by (simp add: reenter_agree [OF assms(1,2) Reenter.prems])
  also have "\<dots> = and_then (reenter r2 s) (step_loop r2 env sess g)"
    by (rule and_then_agree [OF proceeds_reenter [OF assms(2) Reenter.prems] Reenter.prems])
       (rule Reenter.IH)
  finally show ?case by simp
next
  case (Yield p g)
  have "step_loop r1 env sess (Yield p g) s =
      and_then (call_hooks r2 BeforeSteps s) (\<lambda>s.
      and_then (run_step_call r1 env sess p s) (\<lambda>s.
      and_then (call_hooks r1 AfterSteps s) (\<lambda>s.
      step_loop r1 env sess g s)))"
    by (simp add: call_hooks_agree [OF assms(1,2) Yield.prems])
  also have "\<dots> = step_loop r2 env sess (Yield p g) s"
    unfolding step_loop.simps
  proof (rule and_then_agree [OF proceeds_call_hooks [OF assms(2) Yield.prems] Yield.prems])
    fix s1 :: state assume f1: "is_fitting s1"
    have "and_then (run_step_call r1 env sess p s1)
            (\<lambda>s. and_then (call_hooks r1 AfterSteps s) (step_loop r1 env sess g))
        = and_then (run_step_call r2 env sess p s1)
            (\<lambda>s. and_then (call_hooks r1 AfterSteps s) (step_loop r1 env sess g))"
      by (simp add: run_step_call_agree [OF assms(1,2) f1])
    also have "\<dots> = and_then (run_step_call r2 env sess p s1)
            (\<lambda>s. and_then (call_hooks r2 AfterSteps s) (step_loop r2 env sess g))"
    proof (rule and_then_agree [OF proceeds_run_step_call [OF assms(2) f1] f1])
      fix s2 :: state assume f2: "is_fitting s2"
      have "and_then (call_hooks r1 AfterSteps s2) (step_loop r1 env sess g)
          = and_then (call_hooks r2 AfterSteps s2) (step_loop r1 env sess g)"
        by (simp add: call_hooks_agree [OF assms(1,2) f2])
      also have "\<dots> = and_then (call_hooks r2 AfterSteps s2) (step_loop r2 env sess g)"
        by (rule and_then_agree [OF proceeds_call_hooks [OF assms(2) f2] f2])
           (rule Yield.IH)
      finally show "and_then (call_hooks r1 AfterSteps s2) (step_loop r1 env sess g)
          = and_then (call_hooks r2 AfterSteps s2) (step_loop r2 env sess g)" .
    qed
    finally show "and_then (run_step_call r1 env sess p s1)
            (\<lambda>s. and_then (call_hooks r1 AfterSteps s) (step_loop r1 env sess g))
        = and_then (run_step_call r2 env sess p s1)
            (\<lambda>s. and_then (call_hooks r2 AfterSteps s) (step_loop r2 env sess g))" .
  qed
  finally show ?case .
qed simp_all

lemma epoch_loop_agree:
  assumes "guards r1" and "guards r2" and "is_fitting s"
  shows "epoch_loop r1 env sess g s = epoch_loop r2 env sess g s"
  using assms(3)
proof (induction g arbitrary: s)
  case (Reenter g)
  have "and_then (reenter r1 s) (epoch_loop r1 env sess g)
      = and_then (reenter r2 s) (epoch_loop r1 env sess g)"
    by (simp add: reenter_agree [OF assms(1,2) Reenter.prems])
  also have "\<dots> = and_then (reenter r2 s) (epoch_loop r2 env sess g)"
    by (rule and_then_agree [OF proceeds_reenter [OF assms(2) Reenter.prems] Reenter.prems])
       (rule Reenter.IH)
  finally show ?case by simp
next
  case (Yield ep g)
  have "epoch_loop r1 env sess (Yield ep g) s =
      and_then (call_hooks r2 BeforeEpochs s) (\<lambda>s.
      and_then (step_loop r1 env sess (iter_steps env ep) s) (\<lambda>s.
      and_then (call_hooks r1 AfterEpochs s) (\<lambda>s.
      epoch_loop r1 env sess g s)))"
    by (simp add: call_hooks_agree [OF assms(1,2) Yield.prems])
  also have "\<dots> = epoch_loop r2 env sess (Yield ep g) s"
    unfolding epoch_loop.simps
  proof (rule and_then_agree [OF proceeds_call_hooks [OF assms(2) Yield.prems] Yield.prems])
    fix s1 :: state assume f1: "is_fitting s1"
    have "and_then (step_loop r1 env sess (iter_steps env ep) s1)
            (\<lambda>s. and_then (call_hooks r1 AfterEpochs s) (epoch_loop r1 env sess g))
        = and_then (step_loop r2 env sess (iter_steps env ep) s1)
            (\<lambda>s. and_then (call_hooks r1 AfterEpochs s) (epoch_loop r1 env sess g))"
      by (simp add: step_loop_agree [OF assms(1,2) f1])
    also have "\<dots> = and_then (step_loop r2 env sess (iter_steps env ep) s1)
            (\<lambda>s. and_then (call_hooks r2 AfterEpochs s) (epoch_loop r2 env sess g))"
    proof (rule and_then_agree [OF proceeds_step_loop [OF assms(2) f1] f1])
      fix s2 :: state assume f2: "is_fitting s2"
      have "and_then (call_hooks r1 AfterEpochs s2) (epoch_loop r1 env sess g)
          = and_then (call_hooks r2 AfterEpochs s2) (epoch_loop r1 env sess g)"
        by (simp add: call_hooks_agree [OF assms(1,2) f2])
      also have "\<dots> = and_then (call_hooks r2 AfterEpochs s2) (epoch_loop r2 env sess g)"
        by (rule and_then_agree [OF proceeds_call_hooks [OF assms(2) f2] f2])
           (rule Yield.IH)
      finally show "and_then (call_hooks r1 AfterEpochs s2) (epoch_loop r1 env sess g)
          = and_then (call_hooks r2 AfterEpochs s2) (epoch_loop r2 env sess g)" .
    qed
    finally show "and_then (step_loop r1 env sess (iter_steps env ep) s1)
            (\<lambda>s. and_then (call_hooks r1 AfterEpochs s) (epoch_loop r1 env sess g))
        = and_then (step_loop r2 env sess (iter_steps env ep) s1)
            (\<lambda>s. and_then (call_hooks r2 AfterEpochs s) (epoch_loop r2 env sess g))" .
  qed
  finally show ?case .
qed simp_all

lemma run_body_agree:
  assumes "guards r1" and "guards r2" and "is_fitting s"
  shows "run_body r1 env s = run_body r2 env s"
proof -
  have "epoch_loop r1 env sess g
          (foldl (\<lambda>s w. reset_hooks w s) s1 hook_lists)
      = epoch_loop r2 env sess g
          (foldl (\<lambda>s w. reset_hooks w s) s1 hook_lists)"
    if "is_fitting s1" for sess g s1
    by (rule epoch_loop_agree [OF assms(1,2)]) (simp add: reset_all_fields that)
  moreover have "is_fitting (s\<lparr>calls := calls s @ [PrintTrainingSummary]\<rparr>)"
    using assms(3) by simp
  note reenter_fitting(1) [OF assms(1) this] reenter_fitting(1) [OF assms(2) this]
  ultimately show ?thesis
    using assms(3)
    by (auto simp: run_body_def external_def perform_def
        and_then_def split: sum.splits option.splits action.splits)
qed

text \<open>
  Two units of fuel are enough: with more, \<open>run()\<close> has the same outcome.
\<close>

lemma run_fuel:
  "run (Suc (Suc n)) env s = run (Suc (Suc 0)) env s"
proof (cases "is_fitting s")
  case True
  then show ?thesis by simp
next
  case False
  have "run_body (run (Suc n) env) env (s\<lparr>is_fitting := True\<rparr>)
      = run_body (run (Suc 0) env) env (s\<lparr>is_fitting := True\<rparr>)"
    by (rule run_body_agree [OF guards_run guards_run]) simp
  then show ?thesis using False by simp
qed




lemma run_idle:
  assumes "\<not> is_fitting s"
  shows "\<exists>r s1. run_body (run (Suc n) env) env (s\<lparr>is_fitting := True\<rparr>) = Some (r, s1)
     \<and> run (Suc (Suc n)) env s = Some (r, s1\<lparr>is_fitting := False\<rparr>)"
proof -
  from run_body_fitting [OF guards_run, of "s\<lparr>is_fitting := True\<rparr>" n env env]
  obtain r s1 where
    "run_body (run (Suc n) env) env (s\<lparr>is_fitting := True\<rparr>) = Some (r, s1)"
    by auto
  then show ?thesis using assms by simp
qed

text \<open>
  Claim C2. A call of \<open>run()\<close> on a trainer that is not running has an outcome, and
  whatever the outcome is (normal completion, or an error from the session lookup, the
  initialisation, a hook callback, an iterator or the step runner), the trainer is not
  running afterwards.
\<close>

theorem run_restores_is_fitting:
  assumes "\<not> is_fitting s"
  shows "\<exists>r s'. run (Suc (Suc n)) env s = Some (r, s') \<and> \<not> is_fitting s'"
  using run_idle [OF assms, of n env] by auto

theorem run_restores_is_fitting_witness:
  "\<not> is_fitting logged
   \<and> (\<exists>r s'. run (Suc (Suc 0)) failing_step logged = Some (r, s') \<and> \<not> is_fitting s')
   \<and> (case run (Suc (Suc 0)) failing_step logged of
         None \<Rightarrow> False
       | Some (r, s') \<Rightarrow> r = Raise (ExternalError 3) \<and> \<not> is_fitting s'
                          \<and> fired s' = [Ran 1])"
proof -
  have i: "\<not> is_fitting logged"
    by (simp add: logged_def fresh_def)
  have v: "case run (Suc (Suc 0)) failing_step logged of
         None \<Rightarrow> False
       | Some (r, s') \<Rightarrow> r = Raise (ExternalError 3) \<and> \<not> is_fitting s'
                          \<and> fired s' = [Ran 1]"
    by code_simp
  from run_restores_is_fitting [OF i, of 0 failing_step] i v show ?thesis by simp
qed

theorem run_reentrancy_counterexample:
  "\<not> is_fitting nesting
   \<and> run (Suc (Suc 0)) two_by_two nesting =
       Some (Raise RuntimeError,
         nesting\<lparr>before_epochs :=
                    \<lparr>hooks = [\<lparr>callback = PyObj 9 (Some CallsRun) None None,
                               freq = 1, priority = 0\<rparr>],
                     counter = 1\<rparr>,
                  calls := [PrintTrainingSummary, ResetHooks BeforeEpochs,
                            ResetHooks BeforeSteps, ResetHooks AfterSteps,
                            ResetHooks AfterEpochs, CallHooks BeforeEpochs],
                  reentries := 1\<rparr>)"
  by code_simp

text \<open>
  Claim C3, amended. On a running trainer \<open>run()\<close> raises \<open>RuntimeError\<close> at its
  guard and changes nothing. On a trainer that is not running \<open>run()\<close> passes the
  guard and leaves the trainer not running; it ends with \<open>RuntimeError\<close> only after
  it has found a session and called the loop's \<open>print_training_summary\<close>, and
  something called during it (\<open>print_training_summary\<close>, \<open>iter_epochs\<close>,
  \<open>_iter_steps\<close>, \<open>_run_step\<close> or a hook callback) has called \<open>run()\<close>; and every
  call of \<open>run()\<close> that a hook callback made during it raised \<open>RuntimeError\<close>.
\<close>

theorem run_reentrancy:
  "(is_fitting s \<longrightarrow> run (Suc n) env s = Some (Raise RuntimeError, s))
   \<and> (\<not> is_fitting s \<longrightarrow>
        (\<exists>r s'. run (Suc (Suc n)) env s = Some (r, s') \<and> \<not> is_fitting s'
           \<and> reentries s \<le> reentries s'
           \<and> (r = Raise RuntimeError \<longrightarrow>
                reentries s < reentries s'
                \<and> (\<exists>sess cs. get_default_session_or_error env = Inr sess
                      \<and> calls s' = calls s @ PrintTrainingSummary # cs))
           \<and> (\<exists>ms. fired s' = fired s @ ms \<and> list_all refused ms)))"
proof (cases "is_fitting s")
  case True
  then show ?thesis by simp
next
  case False
  let ?s0 = "s\<lparr>is_fitting := True\<rparr>"
  from run_body_fitting [OF guards_run, of ?s0 n env env]
  obtain r s1 where b: "run_body (run (Suc n) env) env ?s0 = Some (r, s1)"
    and m: "\<exists>ms. fired s1 = fired ?s0 @ ms \<and> list_all refused ms"
    and le: "reentries ?s0 \<le> reentries s1"
    and rr: "r = Raise RuntimeError \<longrightarrow>
          reentries ?s0 < reentries s1
          \<and> (\<exists>sess cs. get_default_session_or_error env = Inr sess
                \<and> calls s1 = calls ?s0 @ PrintTrainingSummary # cs)"
    by auto
  have "run (Suc (Suc n)) env s = Some (r, s1\<lparr>is_fitting := False\<rparr>)"
    using False b by simp
  then show ?thesis using False m le rr by simp
qed

theorem run_reentrancy_witness:
  "is_fitting (fresh\<lparr>is_fitting := True\<rparr>)
   \<and> run (Suc 0) two_by_two (fresh\<lparr>is_fitting := True\<rparr>)
       = Some (Raise RuntimeError, fresh\<lparr>is_fitting := True\<rparr>)
   \<and> \<not> is_fitting trying
   \<and> (case run (Suc (Suc 0)) two_by_two trying of
         None \<Rightarrow> False
       | Some (r, s') \<Rightarrow> r = Normal \<and> \<not> is_fitting s' \<and> reentries s' = 2
           \<and> fired s' = [RunRaised 8 RuntimeError, RunRaised 8 RuntimeError])
   \<and> \<not> is_fitting logged
   \<and> (case run (Suc (Suc 0)) reentering_step logged of
         None \<Rightarrow> False
       | Some (r, s') \<Rightarrow> r = Raise RuntimeError \<and> \<not> is_fitting s' \<and> reentries s' = 1
           \<and> last (calls s') = RunStep 7 1)"
proof -
  have a: "is_fitting (fresh\<lparr>is_fitting := True\<rparr>)" by simp
  have b: "\<not> is_fitting trying" "\<not> is_fitting logged"
    by (simp_all add: trying_def logged_def fresh_def)
  have c: "case run (Suc (Suc 0)) two_by_two trying of
         None \<Rightarrow> False
       | Some (r, s') \<Rightarrow> r = Normal \<and> \<not> is_fitting s' \<and> reentries s' = 2
           \<and> fired s' = [RunRaised 8 RuntimeError, RunRaised 8 RuntimeError]"
    by code_simp
  have d: "case run (Suc (Suc 0)) reentering_step logged of
         None \<Rightarrow> False
       | Some (r, s') \<Rightarrow> r = Raise RuntimeError \<and> \<not> is_fitting s' \<and> reentries s' = 1
           \<and> last (calls s') = RunStep 7 1"
    by code_simp
  from run_reentrancy [of "fresh\<lparr>is_fitting := True\<rparr>" 0 two_by_two]
    run_reentrancy [of trying 0 two_by_two] a b c d
  show ?thesis by simp
qed

section \<open>Properties of flatten and unflatten\<close>













lemma unknown_dims_append: "unknown_dims (a @ b) = unknown_dims a + unknown_dims b"
  by (simp add: unknown_dims_def)


















lemma slices_join: "slice_to_last m xs @ slice_from_last m xs = xs"
  by (simp add: slice_to_last_def slice_from_last_def)



lemma slice_unknown:
  "None \<notin> set st \<Longrightarrow> None \<notin> set (slice_to_last m st @ slice_from_last m st)"
  by (simp add: slices_join)

lemma tensor_eq:
  "\<lparr>static_shape = static_shape x, dynamic_shape = dynamic_shape x,
    elements = elements x\<rparr> = (x :: 'a tensor)"
  by simp







end
